theory Spec2Isabelle
  imports Main "HOL-Library.Multiset"
begin

section \<open>The retry wrapper: \<^verbatim>\<open>safeAIRequest\<close> (server)\<close>

text \<open>
  \<^verbatim>\<open>
  async function safeAIRequest<T>(fn: () => Promise<T>, retries = 2): Promise<T> {
      try {
          return await fn();
      } catch (err) {
          if (retries <= 0) throw err;
          console.warn("AI request failed, retrying...", err);
          await new Promise((resolve) => setTimeout(resolve, 1000));
          return safeAIRequest(fn, retries - 1);
      }
  }
  \<close>
  \<open>fn\<close> is an impure thunk: what it returns depends on how often it has been called.
  It is modelled by the outcome of each of its invocations, \<open>fn n\<close> being the outcome
  of invocation number \<open>n\<close> (counted from 0): \<open>Inl err\<close> when the promise rejects (or
  the call throws), \<open>Inr v\<close> when it resolves. The third argument of the model is the
  number of invocations made before the call. The result is the settled value of the
  returned promise together with the effects performed, in order.
\<close>

datatype 'e effect = Invoke nat | Warn 'e | Backoff nat

function safeAIRequest :: "(nat \<Rightarrow> 'e + 'a) \<Rightarrow> int \<Rightarrow> nat \<Rightarrow> ('e + 'a) \<times> 'e effect list" where
  "safeAIRequest fn retries n =
     (case fn n of
        Inr v \<Rightarrow> (Inr v, [Invoke n])
      | Inl err \<Rightarrow>
          if retries \<le> 0 then (Inl err, [Invoke n])
          else (case safeAIRequest fn (retries - 1) (Suc n) of
                  (r, effs) \<Rightarrow> (r, [Invoke n, Warn err, Backoff 1000] @ effs)))"
  by pat_completeness auto
termination
  by (relation "measure (\<lambda>(fn, retries, n). nat retries)") auto

declare safeAIRequest.simps [simp del]

text \<open>The default of the second parameter (\<^verbatim>\<open>retries = 2\<close>), for a first call.\<close>

definition safeAIRequest_call :: "(nat \<Rightarrow> 'e + 'a) \<Rightarrow> int option \<Rightarrow> ('e + 'a) \<times> 'e effect list" where
  "safeAIRequest_call fn retries =
     safeAIRequest fn (case retries of None \<Rightarrow> 2 | Some r \<Rightarrow> r) 0"

text \<open>The effects of \<open>k\<close> failed invocations, each followed by the warning and the
  backoff, and of invocation \<open>k\<close> after them.\<close>

definition retry_effects :: "(nat \<Rightarrow> 'e + 'a) \<Rightarrow> nat \<Rightarrow> nat \<Rightarrow> 'e effect list" where
  "retry_effects fn n k =
     concat (map (\<lambda>i. [Invoke (n + i), Warn (projl (fn (n + i))), Backoff 1000]) [0..<k])
       @ [Invoke (n + k)]"

fun is_Invoke :: "'e effect \<Rightarrow> bool" where
  "is_Invoke (Invoke _) = True"
| "is_Invoke _ = False"

fun is_Backoff :: "'e effect \<Rightarrow> bool" where
  "is_Backoff (Backoff _) = True"
| "is_Backoff _ = False"

section \<open>The scheduler: \<^verbatim>\<open>AiScheduler.js\<close>\<close>

text \<open>
  A job is the object \<^verbatim>\<open>{ fn, resolve, reject, priority }\<close> that \<^verbatim>\<open>runAI\<close> pushes.
  \<open>fn\<close> names the thunk; \<open>resolve\<close> and \<open>reject\<close> belong to the promise that the call of
  \<^verbatim>\<open>runAI\<close> returns, and the field \<open>promise\<close> identifies it: the \<open>n\<close>-th call of
  \<^verbatim>\<open>runAI\<close> (from 0) creates promise \<open>n\<close>.
\<close>

record job =
  fn :: string
  promise :: nat
  priority :: int

text \<open>The text of the status bar item: what the item showed when it was handed over,
  \<^verbatim>\<open>AI Cooldown: ${remaining}s\<close>, or \<^verbatim>\<open>$(check) AI Ready\<close>.\<close>

datatype status_text = Initial | Cooldown int | Ready

text \<open>What the scheduler did, in order (a record kept by the model, not by the code):
  \<open>Dispatched job rest t\<close> is the call \<^verbatim>\<open>job.fn()\<close> at time \<open>t\<close>, \<open>rest\<close> being the queue
  that \<^verbatim>\<open>jobQueue.shift()\<close> left behind; \<open>Resolved\<close> and \<open>Rejected\<close> are the calls
  \<^verbatim>\<open>job.resolve(result)\<close> and \<^verbatim>\<open>job.reject(err)\<close>.\<close>

datatype entry =
    Dispatched job "job list" int
  | Resolved job string int
  | Rejected job string int

text \<open>
  The module's variables, and the part of the JavaScript runtime they live in:
  \<^item> \<open>MIN_DELAY\<close> is the module's constant (21000); no operation assigns it. It is a
    field so that a scenario with another spacing can be run on the same code.
  \<^item> \<open>now\<close> is what \<^verbatim>\<open>Date.now()\<close> returns.
  \<^item> \<open>sleeping\<close> holds the activations of \<^verbatim>\<open>processQueue\<close> suspended at
    \<^verbatim>\<open>await sleep(wait)\<close>, each by the time its timer is due. No local variable is
    read after that await.
  \<^item> \<open>running\<close> holds the activations suspended at \<^verbatim>\<open>await job.fn()\<close>, each by its
    local variable \<open>job\<close>.
  \<^item> \<open>intervals\<close> holds the live \<^verbatim>\<open>setInterval\<close> timers of \<^verbatim>\<open>startCooldown\<close>: handle,
    the closure's variable \<open>remaining\<close>, and the time the next callback is due.
  \<^item> \<open>nextPromise\<close> and \<open>nextInterval\<close> number the promises and the interval handles
    created so far; \<open>trace\<close> records what was done.
  The clock starts at \<open>t0\<close>, the value of \<^verbatim>\<open>Date.now()\<close> when the module is loaded.
\<close>

record scheduler =
  jobQueue :: "job list"
  isRunning :: bool
  lastCallTime :: int
  MIN_DELAY :: int
  statusBarItem :: "status_text option"
  cooldownInterval :: "nat option"
  now :: int
  sleeping :: "int list"
  running :: "job list"
  intervals :: "(nat \<times> int \<times> int) list"
  nextPromise :: nat
  nextInterval :: nat
  trace :: "entry list"

definition init :: "int \<Rightarrow> scheduler" where
  "init t0 =
     \<lparr> jobQueue = [], isRunning = False, lastCallTime = 0, MIN_DELAY = 21000,
       statusBarItem = None, cooldownInterval = None, now = t0, sleeping = [],
       running = [], intervals = [], nextPromise = 0, nextInterval = 0, trace = [] \<rparr>"

text \<open>\<^verbatim>\<open>initScheduler(statusItem)\<close>; \<open>None\<close> is \<^verbatim>\<open>null\<close> or \<^verbatim>\<open>undefined\<close>.\<close>

definition initScheduler :: "status_text option \<Rightarrow> scheduler \<Rightarrow> scheduler" where
  "initScheduler statusItem s = s\<lparr>statusBarItem := statusItem\<rparr>"

definition stopCooldown :: "scheduler \<Rightarrow> scheduler" where
  "stopCooldown s =
     (case statusBarItem s of
        None \<Rightarrow> s
      | Some _ \<Rightarrow>
          s\<lparr>intervals :=
               (case cooldownInterval s of
                  None \<Rightarrow> intervals s
                | Some h \<Rightarrow> filter (\<lambda>i. fst i \<noteq> h) (intervals s)),
            cooldownInterval := None,
            statusBarItem := Some Ready\<rparr>)"

text \<open>\<^verbatim>\<open>Math.ceil(ms / 1000)\<close> on an integer \<open>ms\<close>.\<close>

definition ceil_seconds :: "int \<Rightarrow> int" where
  "ceil_seconds ms = - ((- ms) div 1000)"

definition startCooldown :: "int \<Rightarrow> scheduler \<Rightarrow> scheduler" where
  "startCooldown ms s =
     (case statusBarItem s of
        None \<Rightarrow> s
      | Some _ \<Rightarrow>
          (let remaining = ceil_seconds ms in
           s\<lparr>statusBarItem := Some (Cooldown remaining),
             cooldownInterval := Some (nextInterval s),
             intervals := intervals s @ [(nextInterval s, remaining, now s + 1000)],
             nextInterval := Suc (nextInterval s)\<rparr>))"

text \<open>The callback of the \<open>k\<close>-th live interval. With no status bar item the assignment
  to \<^verbatim>\<open>statusBarItem.text\<close> throws inside the callback and changes nothing.\<close>

definition intervalCallback :: "nat \<Rightarrow> scheduler \<Rightarrow> scheduler" where
  "intervalCallback k s =
     (if k < length (intervals s) \<and> snd (snd (intervals s ! k)) \<le> now s then
        (case intervals s ! k of
           (h, remaining, due) \<Rightarrow>
             (let remaining' = remaining - 1;
                  s1 = s\<lparr>intervals := (intervals s)[k := (h, remaining', due + 1000)]\<rparr>
              in if remaining' \<le> 0 then stopCooldown s1
                 else (case statusBarItem s1 of
                         None \<Rightarrow> s1
                       | Some _ \<Rightarrow> s1\<lparr>statusBarItem := Some (Cooldown remaining')\<rparr>)))
      else s)"

text \<open>\<^verbatim>\<open>processQueue\<close> from the line after \<^verbatim>\<open>await sleep(wait)\<close> up to
  \<^verbatim>\<open>await job.fn()\<close>: lines 33 to 39.\<close>

definition processQueue_resume :: "scheduler \<Rightarrow> scheduler" where
  "processQueue_resume s =
     (let s1 = stopCooldown s in
      case jobQueue s1 of
        [] \<Rightarrow> s1
      | job # rest \<Rightarrow>
          s1\<lparr>jobQueue := rest,
             isRunning := True,
             running := running s1 @ [job],
             trace := trace s1 @ [Dispatched job rest (now s1)]\<rparr>)"

text \<open>\<^verbatim>\<open>processQueue\<close> from its call up to its first await (or its return).\<close>

definition processQueue :: "scheduler \<Rightarrow> scheduler" where
  "processQueue s =
     (if isRunning s then s
      else if length (jobQueue s) = 0 then s
      else
        (let diff = now s - lastCallTime s in
         if diff < MIN_DELAY s then
           (let wait = MIN_DELAY s - diff;
                s1 = startCooldown wait s
            in s1\<lparr>sleeping := sleeping s1 @ [now s1 + wait]\<rparr>)
         else processQueue_resume s))"

text \<open>\<^verbatim>\<open>processQueue\<close> after \<^verbatim>\<open>await job.fn()\<close>: lines 40 to 48. The outcome of the
  awaited promise is \<open>Inr result\<close> or \<open>Inl err\<close>.\<close>

definition processQueue_settled :: "job \<Rightarrow> string + string \<Rightarrow> scheduler \<Rightarrow> scheduler" where
  "processQueue_settled job outcome s =
     (let s1 = (case outcome of
                  Inr result \<Rightarrow>
                    s\<lparr>lastCallTime := now s,
                      trace := trace s @ [Resolved job result (now s)]\<rparr>
                | Inl err \<Rightarrow>
                    s\<lparr>trace := trace s @ [Rejected job err (now s)]\<rparr>);
          s2 = s1\<lparr>isRunning := False\<rparr>
      in if length (jobQueue s2) > 0 then processQueue s2 else s2)"

text \<open>\<^verbatim>\<open>runAI(fn, priority = 1)\<close>: push, sort, \<^verbatim>\<open>processQueue()\<close>, all inside the
  executor of the returned promise, which runs during the call. \<^verbatim>\<open>Array.prototype.sort\<close>
  is stable (ECMAScript 2019; the compiled files use later syntax), and so is \<open>sort_key\<close>;
  the comparator \<^verbatim>\<open>b.priority - a.priority\<close> orders by descending priority. Priorities
  are integers.\<close>

definition runAI :: "string \<Rightarrow> int option \<Rightarrow> scheduler \<Rightarrow> scheduler" where
  "runAI f prio s =
     (let job = \<lparr> fn = f, promise = nextPromise s,
                  priority = (case prio of None \<Rightarrow> 1 | Some p \<Rightarrow> p) \<rparr>;
          s1 = s\<lparr>jobQueue := jobQueue s @ [job], nextPromise := Suc (nextPromise s)\<rparr>;
          s2 = s1\<lparr>jobQueue := sort_key (\<lambda>j. - priority j) (jobQueue s1)\<rparr>
      in processQueue s2)"

text \<open>
  What can happen next: a caller calls \<^verbatim>\<open>initScheduler\<close> or \<^verbatim>\<open>runAI\<close>; the clock
  advances; the timer of the \<open>k\<close>-th sleeping activation fires (not before it is due);
  the call \<^verbatim>\<open>job.fn()\<close> of the \<open>k\<close>-th running activation settles; the callback of the
  \<open>k\<close>-th live interval runs. Between two awaits the code runs without interruption,
  so each is one step. An event that cannot happen in a state leaves it unchanged.
\<close>

datatype event =
    InitScheduler "status_text option"
  | RunAI string "int option"
  | Tick nat
  | Timeout nat
  | Settle nat "string + string"
  | Interval nat

definition remove_nth :: "nat \<Rightarrow> 'a list \<Rightarrow> 'a list" where
  "remove_nth k xs = take k xs @ drop (Suc k) xs"

definition step :: "scheduler \<Rightarrow> event \<Rightarrow> scheduler" where
  "step s ev =
     (case ev of
        InitScheduler statusItem \<Rightarrow> initScheduler statusItem s
      | RunAI f prio \<Rightarrow> runAI f prio s
      | Tick d \<Rightarrow> s\<lparr>now := now s + int d\<rparr>
      | Timeout k \<Rightarrow>
          if k < length (sleeping s) \<and> sleeping s ! k \<le> now s
          then processQueue_resume (s\<lparr>sleeping := remove_nth k (sleeping s)\<rparr>)
          else s
      | Settle k outcome \<Rightarrow>
          if k < length (running s)
          then processQueue_settled (running s ! k) outcome
                 (s\<lparr>running := remove_nth k (running s)\<rparr>)
          else s
      | Interval k \<Rightarrow> intervalCallback k s)"

definition run :: "scheduler \<Rightarrow> event list \<Rightarrow> scheduler" where
  "run s evs = foldl step s evs"

text \<open>The jobs dispatched, in the order of their dispatch.\<close>

fun dispatched :: "entry list \<Rightarrow> job list" where
  "dispatched [] = []"
| "dispatched (Dispatched j rest t # es) = j # dispatched es"
| "dispatched (e # es) = dispatched es"

text \<open>The settlements of promises, in order: the promise and what it was settled with,
  \<open>Inr result\<close> for \<^verbatim>\<open>job.resolve(result)\<close> and \<open>Inl err\<close> for \<^verbatim>\<open>job.reject(err)\<close>.\<close>

fun settlements :: "entry list \<Rightarrow> (nat \<times> (string + string)) list" where
  "settlements [] = []"
| "settlements (Resolved j result t # es) = (promise j, Inr result) # settlements es"
| "settlements (Rejected j err t # es) = (promise j, Inl err) # settlements es"
| "settlements (e # es) = settlements es"

text \<open>The order the queue is kept in: higher priority first, and among equal priorities
  the earlier call of \<^verbatim>\<open>runAI\<close> first.\<close>

definition earlier :: "job \<Rightarrow> job \<Rightarrow> bool" where
  "earlier a b \<longleftrightarrow>
     priority b < priority a \<or> (priority a = priority b \<and> promise a < promise b)"

text \<open>The queue \<open>q\<close> with the job \<open>x\<close> at its place: after the jobs whose priority is not
  lower, before the jobs of lower priority.\<close>

definition enqueued :: "job \<Rightarrow> job list \<Rightarrow> job list" where
  "enqueued x q =
     filter (\<lambda>j. priority x \<le> priority j) q @ x # filter (\<lambda>j. priority j < priority x) q"

text \<open>Whether every dispatch of a trace starts at least \<open>d\<close> after the latest
  \<^verbatim>\<open>lastCallTime = Date.now()\<close> before it (\<open>prev\<close>; \<open>None\<close> when no call has succeeded).\<close>

fun spacing_ok :: "int \<Rightarrow> int option \<Rightarrow> entry list \<Rightarrow> bool" where
  "spacing_ok d prev [] = True"
| "spacing_ok d prev (Dispatched j rest t # es) =
     ((case prev of None \<Rightarrow> True | Some t' \<Rightarrow> d \<le> t - t') \<and> spacing_ok d prev es)"
| "spacing_ok d prev (Resolved j result t # es) = spacing_ok d (Some t) es"
| "spacing_ok d prev (Rejected j err t # es) = spacing_ok d prev es"

text \<open>The work ahead of the scheduler: a queued job is still to be dispatched and
  settled, a running one to be settled, a sleeping activation to wake.\<close>

definition backlog :: "scheduler \<Rightarrow> nat" where
  "backlog s = 3 * length (jobQueue s) + 2 * length (running s) + length (sleeping s)"

text \<open>The state without what belongs to the cooldown display.\<close>

definition core :: "scheduler \<Rightarrow> scheduler" where
  "core s = s\<lparr>statusBarItem := None, cooldownInterval := None, intervals := [],
              nextInterval := 0\<rparr>"

fun is_display_event :: "event \<Rightarrow> bool" where
  "is_display_event (InitScheduler statusItem) = True"
| "is_display_event (Interval k) = True"
| "is_display_event _ = False"

text \<open>What holds of the queue and of the dispatches in every state the scheduler
  reaches: the queue is in order, promises are numbered in the order of the calls of
  \<^verbatim>\<open>runAI\<close>, a job dispatched precedes, in that order, every job it left in the queue,
  and jobs of one priority are dispatched in the order of their submission.\<close>

definition queue_inv :: "scheduler \<Rightarrow> bool" where
  "queue_inv s \<longleftrightarrow>
     sorted_wrt earlier (jobQueue s)
   \<and> (\<forall>q\<in>set (jobQueue s). promise q < nextPromise s)
   \<and> (\<forall>d\<in>set (dispatched (trace s)). promise d < nextPromise s)
   \<and> (\<forall>d\<in>set (dispatched (trace s)). \<forall>q\<in>set (jobQueue s).
         priority d = priority q \<longrightarrow> promise d < promise q)
   \<and> sorted_wrt (\<lambda>a b. priority a = priority b \<longrightarrow> promise a < promise b)
        (dispatched (trace s))
   \<and> (\<forall>j rest t. Dispatched j rest t \<in> set (trace s) \<longrightarrow> (\<forall>q\<in>set rest. earlier j q))"

text \<open>What holds of the promises in every state the scheduler reaches: each promise
  created so far belongs to exactly one queued job, running job or settlement; a
  non-empty queue has an activation of \<^verbatim>\<open>processQueue\<close> that will come back to it; and
  \<open>isRunning\<close> is set only while a call \<^verbatim>\<open>job.fn()\<close> is awaited.\<close>

definition ledger_inv :: "scheduler \<Rightarrow> bool" where
  "ledger_inv s \<longleftrightarrow>
     mset (map promise (jobQueue s)) + mset (map promise (running s))
       + mset (map fst (settlements (trace s))) = mset [0..<nextPromise s]
   \<and> (jobQueue s \<noteq> [] \<longrightarrow> sleeping s \<noteq> [] \<or> running s \<noteq> [])
   \<and> (isRunning s \<longrightarrow> running s \<noteq> [])"

text \<open>The calls of \<^verbatim>\<open>runAI\<close> among the events, in order.\<close>

fun submissions :: "event list \<Rightarrow> (string \<times> int option) list" where
  "submissions [] = []"
| "submissions (RunAI f p # es) = (f, p) # submissions es"
| "submissions (e # es) = submissions es"

text \<open>What holds in every state reached with \<open>MIN_DELAY = 0\<close> from submissions that
  each go to the back of the queue: nothing ever sleeps, the queue is empty whenever no
  call is awaited, and the jobs dispatched so far, followed by the queue, are the
  submissions \<open>subs\<close> (thunk and priority) in their order.\<close>

definition zero_spacing :: "scheduler \<Rightarrow> (string \<times> int) list \<Rightarrow> bool" where
  "zero_spacing s subs \<longleftrightarrow>
     MIN_DELAY s = 0 \<and> lastCallTime s \<le> now s \<and> sleeping s = []
   \<and> (\<not> isRunning s \<longrightarrow> jobQueue s = [])
   \<and> (isRunning s \<longrightarrow> dispatched (trace s) \<noteq> [])
   \<and> sorted (map (\<lambda>j. - priority j) (jobQueue s))
   \<and> map (\<lambda>j. (fn j, priority j)) (dispatched (trace s) @ jobQueue s) = subs"

text \<open>Every promise created so far belongs to a job that is in the queue or has been
  dispatched: a job leaves the queue only by being dispatched.\<close>

definition dispatch_inv :: "scheduler \<Rightarrow> bool" where
  "dispatch_inv s \<longleftrightarrow>
     mset (map promise (jobQueue s)) + mset (map promise (dispatched (trace s)))
       = mset [0..<nextPromise s]"

section \<open>The retry contract\<close>

lemma safeAIRequest_run:
  "k \<le> nat m \<Longrightarrow> (\<forall>i<k. isl (f (n + i))) \<Longrightarrow> k = nat m \<or> \<not> isl (f (n + k)) \<Longrightarrow>
   safeAIRequest f m n = (f (n + k), retry_effects f n k)"
proof (induction k arbitrary: m n)
  case 0
  then show ?case
    by (cases "f n") (auto simp: safeAIRequest.simps [of f m n] retry_effects_def)
next
  case (Suc k)
  from Suc.prems have m: "0 < m" and k: "k \<le> nat (m - 1)" by auto
  from Suc.prems(2) have fails: "isl (f n)" by (metis add.right_neutral zero_less_Suc)
  then obtain err where err: "f n = Inl err" by (cases "f n") auto
  have later: "\<forall>i<k. isl (f (Suc n + i))"
    using Suc.prems(2) by (metis Suc_less_eq add_Suc_shift)
  have stop: "k = nat (m - 1) \<or> \<not> isl (f (Suc n + k))"
    using Suc.prems(1,3) by auto
  have rec: "safeAIRequest f (m - 1) (Suc n) = (f (Suc n + k), retry_effects f (Suc n) k)"
    by (rule Suc.IH [OF k later stop])
  have shift: "map (\<lambda>i. [Invoke (n + i), Warn (projl (f (n + i))), Backoff 1000]) [Suc 0..<Suc k]
             = map (\<lambda>i. [Invoke (Suc n + i), Warn (projl (f (Suc n + i))), Backoff 1000]) [0..<k]"
    by (simp add: map_Suc_upt [symmetric] del: upt_Suc)
  have effs: "retry_effects f n (Suc k)
            = [Invoke n, Warn err, Backoff 1000] @ retry_effects f (Suc n) k"
    unfolding retry_effects_def upt_conv_Cons [OF zero_less_Suc] using shift err
    by simp
  show ?case
    using m err rec effs by (simp add: safeAIRequest.simps [of f m n])
qed

lemma retry_effects_invocations:
  "length (filter is_Invoke (retry_effects f n k)) = Suc k"
  by (induction k) (simp_all add: retry_effects_def)

lemma retry_effects_backoffs:
  "filter is_Backoff (retry_effects f n k) = replicate k (Backoff 1000)"
  by (induction k) (simp_all add: retry_effects_def replicate_append_same)

text \<open>
  C4. For every \<open>fn\<close> and every \<open>maxRetries \<ge> 0\<close>: if \<open>fn\<close> fails on each of its
  \<open>maxRetries + 1\<close> attempts, \<open>safeAIRequest\<close> invokes it exactly \<open>maxRetries + 1\<close>
  times, waits the fixed 1000 ms before each of the \<open>maxRetries\<close> retries, and rejects
  with the error of the last attempt, unchanged; if the first success is attempt \<open>k\<close>
  (\<open>k \<le> maxRetries\<close>, the attempts before it failing), it resolves with that result
  after exactly \<open>k\<close> backoff delays. \<open>n\<close> is the number of invocations of \<open>fn\<close> made
  before the call.
\<close>

theorem safeAIRequest_retry_contract:
  "0 \<le> maxRetries \<Longrightarrow>
   ((\<forall>i\<le>nat maxRetries. isl (f (n + i))) \<longrightarrow>
      safeAIRequest f maxRetries n
        = (f (n + nat maxRetries), retry_effects f n (nat maxRetries))
      \<and> length (filter is_Invoke (snd (safeAIRequest f maxRetries n))) = nat maxRetries + 1
      \<and> filter is_Backoff (snd (safeAIRequest f maxRetries n))
          = replicate (nat maxRetries) (Backoff 1000))
   \<and> (\<forall>k v. k \<le> nat maxRetries \<and> (\<forall>i<k. isl (f (n + i))) \<and> f (n + k) = Inr v \<longrightarrow>
      safeAIRequest f maxRetries n = (Inr v, retry_effects f n k)
      \<and> length (filter is_Invoke (snd (safeAIRequest f maxRetries n))) = k + 1
      \<and> filter is_Backoff (snd (safeAIRequest f maxRetries n)) = replicate k (Backoff 1000))"
proof (intro conjI impI allI)
  assume "\<forall>i\<le>nat maxRetries. isl (f (n + i))"
  then have run: "safeAIRequest f maxRetries n
      = (f (n + nat maxRetries), retry_effects f n (nat maxRetries))"
    by (intro safeAIRequest_run) auto
  show "safeAIRequest f maxRetries n
      = (f (n + nat maxRetries), retry_effects f n (nat maxRetries))"
    by (rule run)
  show "length (filter is_Invoke (snd (safeAIRequest f maxRetries n))) = nat maxRetries + 1"
    by (simp add: run retry_effects_invocations)
  show "filter is_Backoff (snd (safeAIRequest f maxRetries n))
      = replicate (nat maxRetries) (Backoff 1000)"
    by (simp add: run retry_effects_backoffs)
next
  fix k v
  assume h: "k \<le> nat maxRetries \<and> (\<forall>i<k. isl (f (n + i))) \<and> f (n + k) = Inr v"
  then have "safeAIRequest f maxRetries n = (f (n + k), retry_effects f n k)"
    by (intro safeAIRequest_run) auto
  with h have run: "safeAIRequest f maxRetries n = (Inr v, retry_effects f n k)"
    by simp
  show "safeAIRequest f maxRetries n = (Inr v, retry_effects f n k)"
    by (rule run)
  show "length (filter is_Invoke (snd (safeAIRequest f maxRetries n))) = k + 1"
    by (simp add: run retry_effects_invocations)
  show "filter is_Backoff (snd (safeAIRequest f maxRetries n)) = replicate k (Backoff 1000)"
    by (simp add: run retry_effects_backoffs)
qed

theorem safeAIRequest_retry_contract_witness:
  "(0::int) \<le> 2
   \<and> safeAIRequest (\<lambda>i. Inl (10 + i) :: nat + nat) 2 0
       = (Inl 12, [Invoke 0, Warn 10, Backoff 1000, Invoke 1, Warn 11, Backoff 1000, Invoke 2])
   \<and> safeAIRequest (\<lambda>i. if i < 1 then Inl (10 + i) else Inr (7::nat)) 2 0
       = (Inr 7, [Invoke 0, Warn 10, Backoff 1000, Invoke 1])"
proof -
  let ?g = "\<lambda>i::nat. if i < 1 then Inl (10 + i) else (Inr 7 :: nat + nat)"
  have two: "(0::int) \<le> 2" by simp
  have all_fail: "safeAIRequest (\<lambda>i. Inl (10 + i) :: nat + nat) 2 0
       = (Inl 12, [Invoke 0, Warn 10, Backoff 1000, Invoke 1, Warn 11, Backoff 1000, Invoke 2])"
    using safeAIRequest_retry_contract [of 2 "\<lambda>i. Inl (10 + i) :: nat + nat" 0]
    by (simp add: retry_effects_def numeral_2_eq_2 upt_rec)
  have "\<forall>k v. k \<le> nat 2 \<and> (\<forall>i<k. isl (?g (0 + i))) \<and> ?g (0 + k) = Inr v \<longrightarrow>
      safeAIRequest ?g 2 0 = (Inr v, retry_effects ?g 0 k)"
    using safeAIRequest_retry_contract [where maxRetries = 2 and f = ?g and n = 0, OF two]
    by blast
  then have "1 \<le> nat 2 \<and> (\<forall>i<1. isl (?g (0 + i))) \<and> ?g (0 + 1) = Inr 7 \<longrightarrow>
      safeAIRequest ?g 2 0 = (Inr 7, retry_effects ?g 0 1)"
    by blast
  then have second: "safeAIRequest ?g 2 0 = (Inr 7, [Invoke 0, Warn 10, Backoff 1000, Invoke 1])"
    by (simp add: retry_effects_def)
  show ?thesis using all_fail second by simp
qed

section \<open>Single steps of the scheduler\<close>

lemmas sched_defs = step_def init_def runAI_def processQueue_def processQueue_resume_def
  processQueue_settled_def stopCooldown_def startCooldown_def remove_nth_def initScheduler_def
  intervalCallback_def ceil_seconds_def Let_def

lemma dispatched_append [simp]: "dispatched (es @ es') = dispatched es @ dispatched es'"
  by (induction es rule: dispatched.induct) simp_all

lemma settlements_append [simp]: "settlements (es @ es') = settlements es @ settlements es'"
  by (induction es rule: settlements.induct) simp_all

lemma stopCooldown_fields [simp]:
  "jobQueue (stopCooldown s) = jobQueue s" "isRunning (stopCooldown s) = isRunning s"
  "lastCallTime (stopCooldown s) = lastCallTime s" "MIN_DELAY (stopCooldown s) = MIN_DELAY s"
  "now (stopCooldown s) = now s" "sleeping (stopCooldown s) = sleeping s"
  "running (stopCooldown s) = running s" "nextPromise (stopCooldown s) = nextPromise s"
  "trace (stopCooldown s) = trace s"
  by (simp_all add: stopCooldown_def split: option.splits)

lemma startCooldown_fields [simp]:
  "jobQueue (startCooldown ms s) = jobQueue s" "isRunning (startCooldown ms s) = isRunning s"
  "lastCallTime (startCooldown ms s) = lastCallTime s"
  "MIN_DELAY (startCooldown ms s) = MIN_DELAY s"
  "now (startCooldown ms s) = now s" "sleeping (startCooldown ms s) = sleeping s"
  "running (startCooldown ms s) = running s" "nextPromise (startCooldown ms s) = nextPromise s"
  "trace (startCooldown ms s) = trace s"
  by (simp_all add: startCooldown_def Let_def split: option.splits)

lemma intervalCallback_fields [simp]:
  "jobQueue (intervalCallback k s) = jobQueue s" "isRunning (intervalCallback k s) = isRunning s"
  "lastCallTime (intervalCallback k s) = lastCallTime s"
  "MIN_DELAY (intervalCallback k s) = MIN_DELAY s"
  "now (intervalCallback k s) = now s" "sleeping (intervalCallback k s) = sleeping s"
  "running (intervalCallback k s) = running s"
  "nextPromise (intervalCallback k s) = nextPromise s"
  "trace (intervalCallback k s) = trace s"
  by (simp_all add: intervalCallback_def Let_def split: option.splits prod.splits)

lemma processQueue_lastCallTime [simp]: "lastCallTime (processQueue s) = lastCallTime s"
  by (simp add: processQueue_def processQueue_resume_def startCooldown_def stopCooldown_def
      Let_def split: option.splits list.splits)

lemma run_snoc: "run s (evs @ [e]) = step (run s evs) e"
  by (simp add: run_def)

lemma run_Cons: "run s (e # evs) = run (step s e) evs"
  by (simp add: run_def)

lemma run_append: "run s (evs @ evs') = run (run s evs) evs'"
  by (simp add: run_def)

lemma mset_remove_nth:
  "k < length xs \<Longrightarrow> mset (map f (remove_nth k xs)) + {#f (xs ! k)#} = mset (map f xs)"
proof -
  assume "k < length xs"
  then have "xs = take k xs @ xs ! k # drop (Suc k) xs" by (rule id_take_nth_drop)
  then have "mset (map f xs) = mset (map f (take k xs @ xs ! k # drop (Suc k) xs))" by simp
  then show ?thesis by (simp add: remove_nth_def)
qed

lemma length_remove_nth: "k < length xs \<Longrightarrow> Suc (length (remove_nth k xs)) = length xs"
  by (auto simp: remove_nth_def)

section \<open>The frame of a rejection\<close>

text \<open>
  C8. When the call \<^verbatim>\<open>job.fn()\<close> of a dispatched job rejects, the step that handles the
  rejection (reject the promise, clear \<open>isRunning\<close>, re-enter \<^verbatim>\<open>processQueue\<close>) leaves
  \<open>lastCallTime\<close> as it was, so the next dispatch measures its spacing from the previous
  success. (A call that resolves sets \<open>lastCallTime\<close> to the time of its settlement.)
\<close>

theorem rejection_keeps_lastCallTime:
  "lastCallTime (step s (Settle k (Inl err))) = lastCallTime s
   \<and> (k < length (running s) \<longrightarrow> lastCallTime (step s (Settle k (Inr result))) = now s)"
  by (simp add: step_def processQueue_settled_def Let_def)

theorem rejection_keeps_lastCallTime_witness:
  "lastCallTime (step (run (init 1700000000000) [RunAI ''A'' None, Tick 700])
      (Settle 0 (Inl ''boom''))) = 0
   \<and> lastCallTime (step (run (init 1700000000000) [RunAI ''A'' None, Tick 700])
      (Settle 0 (Inr ''fine''))) = 1700000000700"
proof -
  let ?s = "run (init 1700000000000) [RunAI ''A'' None, Tick 700]"
  have s: "length (running ?s) = 1" "lastCallTime ?s = 0" "now ?s = 1700000000700"
    by (simp_all add: run_def sched_defs)
  show ?thesis
    using rejection_keeps_lastCallTime [of ?s 0 "''boom''" "''fine''"] s by simp
qed

section \<open>The order of dispatch\<close>

text \<open>Inserting into a queue in order: the new job goes before the first job whose
  priority is not higher.\<close>

lemma set_insort_prio [simp]:
  "set (insort_key (\<lambda>j. - priority j) x q) = insert x (set q)"
  by (simp add: set_insort_key)

lemma sorted_wrt_insort_earlier:
  "sorted_wrt earlier q \<Longrightarrow> (\<forall>y\<in>set q. priority y \<le> priority x \<longrightarrow> earlier x y) \<Longrightarrow>
   sorted_wrt earlier (insort_key (\<lambda>j. - priority j) x q)"
proof (induction q)
  case Nil
  then show ?case by simp
next
  case (Cons y ys)
  show ?case
  proof (cases "priority y \<le> priority x")
    case True
    have "earlier x z" if "z \<in> set (y # ys)" for z
    proof -
      have "priority z \<le> priority y"
        using that Cons.prems(1) by (auto simp: earlier_def)
      with True Cons.prems(2) that show ?thesis by auto
    qed
    with True Cons.prems(1) show ?thesis by simp
  next
    case False
    then have "earlier y x" by (simp add: earlier_def)
    moreover have "sorted_wrt earlier (insort_key (\<lambda>j. - priority j) x ys)"
      using Cons by simp
    ultimately show ?thesis using False Cons.prems(1) by auto
  qed
qed

lemma sorted_wrt_foldr_insort:
  "sorted_wrt earlier q \<Longrightarrow> \<forall>y\<in>set q. promise y < promise j \<Longrightarrow>
   sorted_wrt earlier (foldr (insort_key (\<lambda>j. - priority j)) q [j])"
proof (induction q)
  case Nil
  then show ?case by simp
next
  case (Cons x xs)
  let ?L = "foldr (insort_key (\<lambda>j. - priority j)) xs [j]"
  have L: "sorted_wrt earlier ?L" using Cons by simp
  have setL: "set ?L = insert j (set xs)"
    by (induction xs) auto
  have "\<forall>y\<in>set ?L. priority y \<le> priority x \<longrightarrow> earlier x y"
    using Cons.prems by (auto simp: setL earlier_def)
  then show ?case using L by (simp add: sorted_wrt_insort_earlier)
qed

lemma sorted_wrt_sort_push:
  "sorted_wrt earlier q \<Longrightarrow> \<forall>y\<in>set q. promise y < promise j \<Longrightarrow>
   sorted_wrt earlier (sort_key (\<lambda>j. - priority j) (q @ [j]))"
  by (simp add: sort_key_def sorted_wrt_foldr_insort)

lemma queue_inv_cong:
  "jobQueue s' = jobQueue s \<Longrightarrow> nextPromise s' = nextPromise s \<Longrightarrow> trace s' = trace s \<Longrightarrow>
   queue_inv s' = queue_inv s"
  by (simp add: queue_inv_def)

lemma queue_inv_init: "queue_inv (init t0)"
  by (simp add: queue_inv_def init_def)

lemma queue_inv_resume: "queue_inv s \<Longrightarrow> queue_inv (processQueue_resume s)"
proof (cases "jobQueue s")
  case Nil
  assume "queue_inv s"
  then show ?thesis
    using Nil by (simp add: processQueue_resume_def Let_def queue_inv_cong [of "stopCooldown s" s])
next
  case (Cons job rest)
  assume inv: "queue_inv s"
  have eq: "processQueue_resume s
      = (stopCooldown s)\<lparr>jobQueue := rest, isRunning := True,
           running := running s @ [job],
           trace := trace s @ [Dispatched job rest (now s)]\<rparr>"
    using Cons by (simp add: processQueue_resume_def Let_def)
  from inv Cons have head: "\<forall>q\<in>set rest. earlier job q" and tail: "sorted_wrt earlier rest"
    by (simp_all add: queue_inv_def)
  from inv Cons have old: "\<forall>d\<in>set (dispatched (trace s)).
      priority d = priority job \<longrightarrow> promise d < promise job"
    by (simp add: queue_inv_def)
  show ?thesis
    unfolding eq queue_inv_def using inv Cons head tail old
    by (auto simp: queue_inv_def sorted_wrt_append earlier_def)
qed

lemma queue_inv_processQueue: "queue_inv s \<Longrightarrow> queue_inv (processQueue s)"
  by (simp add: processQueue_def Let_def queue_inv_resume
      queue_inv_cong [of "_\<lparr>sleeping := _\<rparr>" s])

lemma queue_inv_settled: "queue_inv s \<Longrightarrow> queue_inv (processQueue_settled j out s)"
proof -
  assume inv: "queue_inv s"
  have "queue_inv (s\<lparr>lastCallTime := now s, trace := trace s @ [Resolved j r (now s)],
      isRunning := False\<rparr>)" for r
    using inv by (auto simp: queue_inv_def)
  moreover have "queue_inv (s\<lparr>trace := trace s @ [Rejected j e (now s)],
      isRunning := False\<rparr>)" for e
    using inv by (auto simp: queue_inv_def)
  ultimately show ?thesis
    by (cases out) (simp_all add: processQueue_settled_def Let_def queue_inv_processQueue)
qed

lemma queue_inv_runAI: "queue_inv s \<Longrightarrow> queue_inv (runAI f p s)"
proof -
  assume inv: "queue_inv s"
  define job where "job = \<lparr> fn = f, promise = nextPromise s,
      priority = (case p of None \<Rightarrow> 1 | Some p \<Rightarrow> p) \<rparr>"
  have fresh: "\<forall>y\<in>set (jobQueue s). promise y < promise job"
    using inv by (simp add: queue_inv_def job_def)
  have sorted: "sorted_wrt earlier (sort_key (\<lambda>j. - priority j) (jobQueue s @ [job]))"
    using inv fresh by (intro sorted_wrt_sort_push) (simp_all add: queue_inv_def)
  have "queue_inv (s\<lparr>nextPromise := Suc (nextPromise s),
      jobQueue := sort_key (\<lambda>j. - priority j) (jobQueue s @ [job])\<rparr>)"
    using inv sorted by (auto simp: queue_inv_def job_def less_Suc_eq)
  then have "queue_inv (processQueue
      (s\<lparr>nextPromise := Suc (nextPromise s),
         jobQueue := sort_key (\<lambda>j. - priority j) (jobQueue s @ [job])\<rparr>))"
    by (rule queue_inv_processQueue)
  then show ?thesis
    by (simp add: runAI_def Let_def job_def)
qed

lemma queue_inv_step: "queue_inv s \<Longrightarrow> queue_inv (step s e)"
proof (cases e)
  case (Timeout k)
  assume "queue_inv s"
  then have "queue_inv (s\<lparr>sleeping := remove_nth k (sleeping s)\<rparr>)"
    by (simp add: queue_inv_cong [of "_\<lparr>sleeping := _\<rparr>" s])
  with \<open>queue_inv s\<close> show ?thesis
    by (simp add: Timeout step_def queue_inv_resume)
next
  case (Settle k out)
  assume "queue_inv s"
  then have "queue_inv (s\<lparr>running := remove_nth k (running s)\<rparr>)"
    by (simp add: queue_inv_cong [of "_\<lparr>running := _\<rparr>" s])
  with \<open>queue_inv s\<close> show ?thesis
    by (simp add: Settle step_def queue_inv_settled)
qed (simp_all add: step_def queue_inv_runAI initScheduler_def
      queue_inv_cong [of "_\<lparr>statusBarItem := _\<rparr>" s] queue_inv_cong [of "_\<lparr>now := _\<rparr>" s]
      queue_inv_cong [of "intervalCallback _ s" s])

lemma queue_inv_run: "queue_inv (run (init t0) evs)"
  by (induction evs rule: rev_induct) (simp_all add: run_snoc queue_inv_step, simp add: run_def queue_inv_init)

text \<open>
  C2, as the specification states it, fails in its last part: for submissions with
  pairwise distinct priorities the dispatch order need not be descending. Here A
  (priority 1) is the first submission to a freshly loaded scheduler and is dispatched by
  its own call of \<^verbatim>\<open>runAI\<close>; B (priority 5), submitted next, is dispatched after it.
\<close>

theorem dispatch_not_descending:
  "map priority (dispatched (trace (run (init 1700000000000)
     [RunAI ''A'' (Some 1), RunAI ''B'' (Some 5), Settle 0 (Inr ''a''), Tick 21000, Timeout 0])))
     = [1, 5]
   \<and> \<not> sorted_wrt (\<lambda>a b. priority b < priority a) (dispatched (trace (run (init 1700000000000)
     [RunAI ''A'' (Some 1), RunAI ''B'' (Some 5), Settle 0 (Inr ''a''), Tick 21000, Timeout 0])))"
  by (simp add: run_def sched_defs)

text \<open>
  C2, amended. In every state the scheduler reaches, the queue is ordered by descending
  priority and, within a priority, by submission; so each dispatched job had the highest
  priority among the jobs in the queue when it was popped (\<open>rest\<close> is what the pop left),
  strictly the highest among those of another priority, and was submitted before every
  job of its own priority left there; and over the whole run two jobs of equal priority
  are dispatched in the order of their submission.
\<close>

theorem dispatch_order:
  "s = run (init t0) evs \<Longrightarrow>
     sorted_wrt earlier (jobQueue s)
   \<and> (\<forall>j rest t. Dispatched j rest t \<in> set (trace s) \<longrightarrow>
        (\<forall>q\<in>set rest. priority q \<le> priority j
                      \<and> (priority q = priority j \<longrightarrow> promise j < promise q)
                      \<and> (priority q \<noteq> priority j \<longrightarrow> priority q < priority j)))
   \<and> sorted_wrt (\<lambda>a b. priority a = priority b \<longrightarrow> promise a < promise b)
        (dispatched (trace s))"
proof -
  assume "s = run (init t0) evs"
  then have "queue_inv s" by (simp add: queue_inv_run)
  then show ?thesis
    unfolding queue_inv_def earlier_def by (intro conjI) (simp, fastforce, simp)
qed

theorem dispatch_order_witness:
  "jobQueue (run (init 1700000000000)
     [RunAI ''A'' (Some 1), RunAI ''B'' (Some 1), RunAI ''C'' (Some 5), RunAI ''D'' (Some 1)])
     = [\<lparr>fn = ''C'', promise = 2, priority = 5\<rparr>, \<lparr>fn = ''B'', promise = 1, priority = 1\<rparr>,
        \<lparr>fn = ''D'', promise = 3, priority = 1\<rparr>]
   \<and> trace (run (init 1700000000000)
     [RunAI ''A'' (Some 1), RunAI ''B'' (Some 1), RunAI ''C'' (Some 5), RunAI ''D'' (Some 1),
      Settle 0 (Inl ''e''), Settle 0 (Inl ''e''), Settle 0 (Inl ''e'')])
     = [Dispatched \<lparr>fn = ''A'', promise = 0, priority = 1\<rparr> [] 1700000000000,
        Rejected \<lparr>fn = ''A'', promise = 0, priority = 1\<rparr> ''e'' 1700000000000,
        Dispatched \<lparr>fn = ''C'', promise = 2, priority = 5\<rparr>
          [\<lparr>fn = ''B'', promise = 1, priority = 1\<rparr>, \<lparr>fn = ''D'', promise = 3, priority = 1\<rparr>]
          1700000000000,
        Rejected \<lparr>fn = ''C'', promise = 2, priority = 5\<rparr> ''e'' 1700000000000,
        Dispatched \<lparr>fn = ''B'', promise = 1, priority = 1\<rparr>
          [\<lparr>fn = ''D'', promise = 3, priority = 1\<rparr>] 1700000000000,
        Rejected \<lparr>fn = ''B'', promise = 1, priority = 1\<rparr> ''e'' 1700000000000,
        Dispatched \<lparr>fn = ''D'', promise = 3, priority = 1\<rparr> [] 1700000000000]
   \<and> sorted_wrt earlier (jobQueue (run (init 1700000000000)
     [RunAI ''A'' (Some 1), RunAI ''B'' (Some 1), RunAI ''C'' (Some 5), RunAI ''D'' (Some 1)]))
   \<and> sorted_wrt (\<lambda>a b. priority a = priority b \<longrightarrow> promise a < promise b)
        (dispatched (trace (run (init 1700000000000)
     [RunAI ''A'' (Some 1), RunAI ''B'' (Some 1), RunAI ''C'' (Some 5), RunAI ''D'' (Some 1),
      Settle 0 (Inl ''e''), Settle 0 (Inl ''e''), Settle 0 (Inl ''e'')])))"
proof -
  let ?subs = "[RunAI ''A'' (Some 1), RunAI ''B'' (Some 1), RunAI ''C'' (Some 5), RunAI ''D'' (Some 1)]"
  let ?all = "?subs @ [Settle 0 (Inl ''e''), Settle 0 (Inl ''e''), Settle 0 (Inl ''e'')]"
  have q: "jobQueue (run (init 1700000000000) ?subs)
     = [\<lparr>fn = ''C'', promise = 2, priority = 5\<rparr>, \<lparr>fn = ''B'', promise = 1, priority = 1\<rparr>,
        \<lparr>fn = ''D'', promise = 3, priority = 1\<rparr>]"
    by (simp add: run_def sched_defs)
  have t: "trace (run (init 1700000000000) ?all)
     = [Dispatched \<lparr>fn = ''A'', promise = 0, priority = 1\<rparr> [] 1700000000000,
        Rejected \<lparr>fn = ''A'', promise = 0, priority = 1\<rparr> ''e'' 1700000000000,
        Dispatched \<lparr>fn = ''C'', promise = 2, priority = 5\<rparr>
          [\<lparr>fn = ''B'', promise = 1, priority = 1\<rparr>, \<lparr>fn = ''D'', promise = 3, priority = 1\<rparr>]
          1700000000000,
        Rejected \<lparr>fn = ''C'', promise = 2, priority = 5\<rparr> ''e'' 1700000000000,
        Dispatched \<lparr>fn = ''B'', promise = 1, priority = 1\<rparr>
          [\<lparr>fn = ''D'', promise = 3, priority = 1\<rparr>] 1700000000000,
        Rejected \<lparr>fn = ''B'', promise = 1, priority = 1\<rparr> ''e'' 1700000000000,
        Dispatched \<lparr>fn = ''D'', promise = 3, priority = 1\<rparr> [] 1700000000000]"
    by (simp add: run_def sched_defs)
  have a: "sorted_wrt earlier (jobQueue (run (init 1700000000000) ?subs))"
    using dispatch_order [OF refl, of 1700000000000 ?subs] by blast
  have b: "sorted_wrt (\<lambda>a b. priority a = priority b \<longrightarrow> promise a < promise b)
        (dispatched (trace (run (init 1700000000000) ?all)))"
    using dispatch_order [OF refl, of 1700000000000 ?all] by blast
  show ?thesis using q t a b by simp
qed

section \<open>The default priority\<close>

lemma foldr_insort_enqueued:
  "sorted (map (\<lambda>j. - priority j) q) \<Longrightarrow>
   foldr (insort_key (\<lambda>j. - priority j)) q [x] = enqueued x q"
proof (induction q)
  case Nil
  show ?case by (simp add: enqueued_def)
next
  case (Cons y ys)
  from Cons.prems have below: "\<forall>z\<in>set ys. priority z \<le> priority y"
    and tail: "sorted (map (\<lambda>j. - priority j) ys)"
    by auto
  have rec: "foldr (insort_key (\<lambda>j. - priority j)) ys [x] = enqueued x ys"
    by (rule Cons.IH [OF tail])
  show ?case
  proof (cases "priority x \<le> priority y")
    case True
    have "\<forall>z\<in>set (enqueued x ys). - priority y \<le> - priority z"
      using below True by (auto simp: enqueued_def)
    then have "insort_key (\<lambda>j. - priority j) y (enqueued x ys) = y # enqueued x ys"
      by (intro insort_is_Cons) simp
    with True show ?thesis by (simp add: rec) (simp add: enqueued_def)
  next
    case False
    with below have all_lower: "\<forall>z\<in>set ys. priority z < priority x" by auto
    then have none: "filter (\<lambda>j. priority x \<le> priority j) ys = []"
      and all: "filter (\<lambda>j. priority j < priority x) ys = ys"
      by (auto simp: filter_empty_conv)
    have "insort_key (\<lambda>j. - priority j) y ys = y # ys"
      using below by (intro insort_is_Cons) simp
    with False none all show ?thesis
      by (simp add: rec) (simp add: enqueued_def)
  qed
qed

lemma sort_push_enqueued:
  "sorted (map (\<lambda>j. - priority j) q) \<Longrightarrow>
   sort_key (\<lambda>j. - priority j) (q @ [x]) = enqueued x q"
  by (simp add: sort_key_def foldr_insort_enqueued)

lemma queue_inv_sorted:
  "queue_inv s \<Longrightarrow> sorted (map (\<lambda>j. - priority j) (jobQueue s))"
proof -
  assume "queue_inv s"
  then have "sorted_wrt earlier (jobQueue s)" by (simp add: queue_inv_def)
  then have "sorted_wrt (\<lambda>a b. - priority a \<le> - priority b) (jobQueue s)"
    by (rule sorted_wrt_mono_rel [rotated]) (auto simp: earlier_def)
  then show ?thesis by (simp add: sorted_map)
qed

lemma processQueue_cases:
  "(jobQueue (processQueue s) = jobQueue s \<and> running (processQueue s) = running s)
   \<or> (jobQueue s \<noteq> [] \<and> jobQueue (processQueue s) = tl (jobQueue s)
       \<and> running (processQueue s) = running s @ [hd (jobQueue s)])"
  by (cases "jobQueue s") (simp_all add: processQueue_def processQueue_resume_def Let_def)

lemma processQueue_jobs:
  "mset (jobQueue (processQueue s)) + mset (running (processQueue s))
     = mset (jobQueue s) + mset (running s)"
  by (cases "jobQueue s") (simp_all add: processQueue_def processQueue_resume_def Let_def)

text \<open>
  C9. A call of \<^verbatim>\<open>runAI\<close> that omits the priority enqueues the job with priority exactly
  1. The call adds exactly one job to those queued or running, the job with the given
  thunk, the next promise and priority 1, and it does exactly what the call with priority
  1 does (the whole state after it is the same). In every state the scheduler reaches,
  the job is put into the queue where a job of priority 1 belongs, after the queued jobs
  of priority 1 or more and before those of lower priority, and the call then either
  leaves the queue so or dispatches its head.
\<close>

theorem runAI_default_priority:
  "runAI f None s = runAI f (Some 1) s
   \<and> step s (RunAI f None) = step s (RunAI f (Some 1))
   \<and> mset (jobQueue (runAI f None s)) + mset (running (runAI f None s))
       = mset (jobQueue s) + mset (running s)
         + {#\<lparr>fn = f, promise = nextPromise s, priority = 1\<rparr>#}
   \<and> \<lparr>fn = f, promise = nextPromise s, priority = 1\<rparr>
       \<in> set (jobQueue (runAI f None s)) \<union> set (running (runAI f None s))
   \<and> nextPromise (runAI f None s) = Suc (nextPromise s)
   \<and> (s = run (init t0) evs \<longrightarrow>
        (jobQueue (runAI f None s)
           = enqueued \<lparr>fn = f, promise = nextPromise s, priority = 1\<rparr> (jobQueue s)
         \<and> running (runAI f None s) = running s)
        \<or> (jobQueue (runAI f None s)
             = tl (enqueued \<lparr>fn = f, promise = nextPromise s, priority = 1\<rparr> (jobQueue s))
           \<and> running (runAI f None s)
             = running s
               @ [hd (enqueued \<lparr>fn = f, promise = nextPromise s, priority = 1\<rparr> (jobQueue s))]))"
proof -
  define job where "job = \<lparr>fn = f, promise = nextPromise s, priority = 1\<rparr>"
  define s2 where "s2 = s\<lparr>nextPromise := Suc (nextPromise s),
      jobQueue := sort_key (\<lambda>j. - priority j) (jobQueue s @ [job])\<rparr>"
  have run: "runAI f None s = processQueue s2"
    by (simp add: runAI_def Let_def s2_def job_def)
  have same: "runAI f None s = runAI f (Some 1) s"
    "step s (RunAI f None) = step s (RunAI f (Some 1))"
    by (simp_all add: runAI_def step_def)
  have "mset (jobQueue (processQueue s2)) + mset (running (processQueue s2))
      = mset (jobQueue s2) + mset (running s2)"
    by (rule processQueue_jobs)
  also have "\<dots> = mset (jobQueue s) + mset (running s) + {#job#}"
    by (simp add: s2_def)
  finally have jobs: "mset (jobQueue (runAI f None s)) + mset (running (runAI f None s))
      = mset (jobQueue s) + mset (running s) + {#job#}"
    by (simp only: run)
  have "job \<in># mset (jobQueue (runAI f None s)) + mset (running (runAI f None s))"
    unfolding jobs by simp
  then have member: "job \<in> set (jobQueue (runAI f None s)) \<union> set (running (runAI f None s))"
    by simp
  have "nextPromise (processQueue s2) = nextPromise s2"
    by (cases "jobQueue s2") (simp_all add: processQueue_def processQueue_resume_def Let_def)
  then have next_promise: "nextPromise (runAI f None s) = Suc (nextPromise s)"
    by (simp add: run s2_def)
  have placed: "(jobQueue (runAI f None s) = enqueued job (jobQueue s)
         \<and> running (runAI f None s) = running s)
        \<or> (jobQueue (runAI f None s) = tl (enqueued job (jobQueue s))
           \<and> running (runAI f None s) = running s @ [hd (enqueued job (jobQueue s))])"
    if "s = run (init t0) evs"
  proof -
    from that have "queue_inv s" by (simp add: queue_inv_run)
    then have "sort_key (\<lambda>j. - priority j) (jobQueue s @ [job]) = enqueued job (jobQueue s)"
      by (intro sort_push_enqueued queue_inv_sorted)
    then have q: "jobQueue s2 = enqueued job (jobQueue s)" and r: "running s2 = running s"
      by (simp_all add: s2_def)
    show ?thesis
      using processQueue_cases [of s2] unfolding run q r by blast
  qed
  show ?thesis
    using same jobs member next_promise placed unfolding job_def by blast
qed

theorem runAI_default_priority_witness:
  "jobQueue (run (init 1700000000000)
       [RunAI ''A'' (Some 5), RunAI ''B'' (Some 0), RunAI ''C'' (Some 1)])
     = [\<lparr>fn = ''C'', promise = 2, priority = 1\<rparr>, \<lparr>fn = ''B'', promise = 1, priority = 0\<rparr>]
   \<and> jobQueue (runAI ''D'' None (run (init 1700000000000)
       [RunAI ''A'' (Some 5), RunAI ''B'' (Some 0), RunAI ''C'' (Some 1)]))
     = [\<lparr>fn = ''C'', promise = 2, priority = 1\<rparr>, \<lparr>fn = ''D'', promise = 3, priority = 1\<rparr>,
        \<lparr>fn = ''B'', promise = 1, priority = 0\<rparr>]
   \<and> running (runAI ''D'' None (run (init 1700000000000)
       [RunAI ''A'' (Some 5), RunAI ''B'' (Some 0), RunAI ''C'' (Some 1)]))
     = [\<lparr>fn = ''A'', promise = 0, priority = 5\<rparr>]
   \<and> running (runAI ''D'' None (init 1700000000000))
     = [\<lparr>fn = ''D'', promise = 0, priority = 1\<rparr>]"
proof -
  let ?evs = "[RunAI ''A'' (Some 5), RunAI ''B'' (Some 0), RunAI ''C'' (Some 1)]"
  let ?s = "run (init 1700000000000) ?evs"
  have s: "jobQueue ?s
     = [\<lparr>fn = ''C'', promise = 2, priority = 1\<rparr>, \<lparr>fn = ''B'', promise = 1, priority = 0\<rparr>]"
    "running ?s = [\<lparr>fn = ''A'', promise = 0, priority = 5\<rparr>]" "nextPromise ?s = 3"
    by (simp_all add: run_def sched_defs)
  have busy: "running (runAI ''D'' None ?s) = [\<lparr>fn = ''A'', promise = 0, priority = 5\<rparr>]"
    by (simp add: run_def sched_defs)
  have fresh: "running (runAI ''D'' None (init 1700000000000))
     = [\<lparr>fn = ''D'', promise = 0, priority = 1\<rparr>]"
    by (simp add: sched_defs)
  note inst = runAI_default_priority [of "''D''" ?s 1700000000000 ?evs]
  from inst busy s have "jobQueue (runAI ''D'' None ?s)
     = [\<lparr>fn = ''C'', promise = 2, priority = 1\<rparr>, \<lparr>fn = ''D'', promise = 3, priority = 1\<rparr>,
        \<lparr>fn = ''B'', promise = 1, priority = 0\<rparr>]"
    by (auto simp: enqueued_def)
  with s busy fresh show ?thesis by simp
qed

section \<open>The scenario A(1), B(5), C(1)\<close>

lemma zero_spacing_processQueue:
  assumes "MIN_DELAY s = 0" "lastCallTime s \<le> now s" "sleeping s = []"
    "isRunning s \<longrightarrow> dispatched (trace s) \<noteq> []"
    "\<not> isRunning s \<longrightarrow> length (jobQueue s) \<le> 1"
    "sorted (map (\<lambda>j. - priority j) (jobQueue s))"
    "map (\<lambda>j. (fn j, priority j)) (dispatched (trace s) @ jobQueue s) = subs"
  shows "zero_spacing (processQueue s) subs"
proof (cases "isRunning s \<or> jobQueue s = []")
  case True
  with assms show ?thesis by (auto simp: processQueue_def zero_spacing_def)
next
  case False
  with assms(5) obtain j where j: "jobQueue s = [j]"
    by (cases "jobQueue s") auto
  with False assms show ?thesis
    by (simp add: processQueue_def processQueue_resume_def Let_def zero_spacing_def)
qed

lemma zero_spacing_other:
  assumes "zero_spacing s subs" and "\<forall>f p. e \<noteq> RunAI f p"
  shows "zero_spacing (step s e) subs"
proof (cases e)
  case (Settle k out)
  show ?thesis
  proof (cases "k < length (running s)")
    case False
    with assms Settle show ?thesis by (simp add: step_def)
  next
    case True
    define s1 where "s1 = (case out of
        Inr result \<Rightarrow> s\<lparr>running := remove_nth k (running s), lastCallTime := now s,
            trace := trace s @ [Resolved (running s ! k) result (now s)], isRunning := False\<rparr>
      | Inl err \<Rightarrow> s\<lparr>running := remove_nth k (running s),
            trace := trace s @ [Rejected (running s ! k) err (now s)], isRunning := False\<rparr>)"
    have fields: "MIN_DELAY s1 = 0" "lastCallTime s1 \<le> now s1" "sleeping s1 = []"
      "\<not> isRunning s1" "jobQueue s1 = jobQueue s" "dispatched (trace s1) = dispatched (trace s)"
      using assms(1) by (cases out; simp add: s1_def zero_spacing_def)+
    have step: "step s e = (if length (jobQueue s1) > 0 then processQueue s1 else s1)"
      using True by (cases out) (simp_all add: Settle step_def processQueue_settled_def Let_def s1_def)
    show ?thesis
    proof (cases "jobQueue s")
      case Nil
      with fields assms(1) show ?thesis
        unfolding step by (simp add: zero_spacing_def)
    next
      case (Cons j js)
      have tail: "zero_spacing (processQueue_resume s1) subs"
        using fields assms(1) Cons
        by (simp add: processQueue_resume_def Let_def zero_spacing_def)
      have "processQueue s1 = processQueue_resume s1"
        using fields Cons by (simp add: processQueue_def Let_def)
      with tail Cons fields show ?thesis unfolding step by simp
    qed
  qed
qed (use assms in \<open>auto simp: step_def zero_spacing_def initScheduler_def\<close>)

lemma zero_spacing_runAI:
  assumes "zero_spacing s subs" and "\<forall>q\<in>set (jobQueue s). prio \<le> priority q"
    and "prio = (case p of None \<Rightarrow> 1 | Some p \<Rightarrow> p)"
  shows "zero_spacing (step s (RunAI f p)) (subs @ [(f, prio)])"
proof -
  define job where "job = \<lparr> fn = f, promise = nextPromise s, priority = prio \<rparr>"
  have sorted: "sorted (map (\<lambda>j. - priority j) (jobQueue s @ [job]))"
    using assms(1,2) by (auto simp: zero_spacing_def sorted_append job_def)
  then have sort: "sort_key (\<lambda>j. - priority j) (jobQueue s @ [job]) = jobQueue s @ [job]"
    by (rule sort_key_id_if_sorted)
  define s2 where "s2 = s\<lparr>nextPromise := Suc (nextPromise s), jobQueue := jobQueue s @ [job]\<rparr>"
  have "zero_spacing (processQueue s2) (subs @ [(f, prio)])"
    using assms(1) sorted
    by (intro zero_spacing_processQueue) (auto simp: s2_def zero_spacing_def job_def)
  moreover have "step s (RunAI f p) = processQueue s2"
    using sort assms(3) by (simp add: step_def runAI_def Let_def s2_def job_def)
  ultimately show ?thesis by simp
qed

lemma zero_spacing_quiet:
  "zero_spacing s subs \<Longrightarrow> submissions evs = [] \<Longrightarrow> zero_spacing (run s evs) subs"
proof (induction evs arbitrary: s)
  case Nil
  then show ?case by (simp add: run_def)
next
  case (Cons e evs)
  from Cons.prems(2) have e: "\<forall>f p. e \<noteq> RunAI f p" and rest: "submissions evs = []"
    by (cases e; simp)+
  show ?case
    unfolding run_Cons using Cons.prems(1) e rest
    by (intro Cons.IH zero_spacing_other)
qed

lemma submissions_split:
  "submissions evs = (f, p) # rest \<Longrightarrow>
   \<exists>pre post. evs = pre @ RunAI f p # post \<and> submissions pre = [] \<and> submissions post = rest"
proof (induction evs)
  case Nil
  then show ?case by simp
next
  case (Cons e evs)
  show ?case
  proof (cases "\<exists>f' p'. e = RunAI f' p'")
    case True
    with Cons.prems have "e = RunAI f p" "submissions evs = rest" by auto
    then have "e # evs = [] @ RunAI f p # evs \<and> submissions [] = [] \<and> submissions evs = rest"
      by simp
    then show ?thesis by blast
  next
    case False
    then have quiet: "submissions [e] = []" and "submissions evs = (f, p) # rest"
      using Cons.prems by (cases e; simp)+
    with Cons.IH obtain pre post where
      "evs = pre @ RunAI f p # post" "submissions pre = []" "submissions post = rest"
      by blast
    with False have "e # evs = (e # pre) @ RunAI f p # post \<and> submissions (e # pre) = []
        \<and> submissions post = rest"
      by (cases e) simp_all
    then show ?thesis by blast
  qed
qed

lemma zero_spacing_started:
  "zero_spacing s subs \<Longrightarrow> subs \<noteq> [] \<Longrightarrow> dispatched (trace s) \<noteq> []"
  by (cases "isRunning s") (auto simp: zero_spacing_def)

lemma zero_spacing_init: "0 \<le> t0 \<Longrightarrow> zero_spacing ((init t0)\<lparr>MIN_DELAY := 0\<rparr>) []"
  by (simp add: zero_spacing_def init_def)

lemma zero_spacing_scenario:
  assumes "0 \<le> t0"
    and "submissions evs = [(''A'', Some 1), (''B'', Some 5), (''C'', Some 1)]"
  shows "zero_spacing (run ((init t0)\<lparr>MIN_DELAY := 0\<rparr>) evs)
           [(''A'', 1), (''B'', 5), (''C'', 1)]"
proof -
  let ?s0 = "(init t0)\<lparr>MIN_DELAY := 0\<rparr>"
  from submissions_split [OF assms(2)] obtain e0 r1 where
    evs: "evs = e0 @ RunAI ''A'' (Some 1) # r1" and e0: "submissions e0 = []"
    and r1: "submissions r1 = [(''B'', Some 5), (''C'', Some 1)]"
    by blast
  from submissions_split [OF r1] obtain e1 r2 where
    r1_eq: "r1 = e1 @ RunAI ''B'' (Some 5) # r2" and e1: "submissions e1 = []"
    and r2: "submissions r2 = [(''C'', Some 1)]"
    by blast
  from submissions_split [OF r2] obtain e2 e3 where
    r2_eq: "r2 = e2 @ RunAI ''C'' (Some 1) # e3" and e2: "submissions e2 = []"
    and e3: "submissions e3 = []"
    by blast
  define s1 where "s1 = run ?s0 e0"
  define s2 where "s2 = run (step s1 (RunAI ''A'' (Some 1))) e1"
  define s3 where "s3 = run (step s2 (RunAI ''B'' (Some 5))) e2"
  have run: "run ?s0 evs = run (step s3 (RunAI ''C'' (Some 1))) e3"
    by (simp add: evs r1_eq r2_eq run_append run_Cons s1_def s2_def s3_def)
  have z1: "zero_spacing s1 []"
    unfolding s1_def using assms(1) e0 by (intro zero_spacing_quiet zero_spacing_init)
  then have "jobQueue s1 = []" by (simp add: zero_spacing_def)
  with z1 have "zero_spacing (step s1 (RunAI ''A'' (Some 1))) ([] @ [(''A'', 1)])"
    by (intro zero_spacing_runAI) simp_all
  then have z2: "zero_spacing s2 [(''A'', 1)]"
    unfolding s2_def using e1 by (intro zero_spacing_quiet) simp_all
  then have "dispatched (trace s2) \<noteq> []" by (rule zero_spacing_started) simp
  with z2 have "jobQueue s2 = []"
    by (cases "dispatched (trace s2)") (auto simp: zero_spacing_def)
  with z2 have "zero_spacing (step s2 (RunAI ''B'' (Some 5))) ([(''A'', 1)] @ [(''B'', 5)])"
    by (intro zero_spacing_runAI) simp_all
  then have z3: "zero_spacing s3 [(''A'', 1), (''B'', 5)]"
    unfolding s3_def using e2 by (intro zero_spacing_quiet) simp_all
  have "priority q \<in> {1, 5}" if "q \<in> set (jobQueue s3)" for q
  proof -
    from that have "(fn q, priority q) \<in> set (map (\<lambda>j. (fn j, priority j))
        (dispatched (trace s3) @ jobQueue s3))"
      by auto
    with z3 show ?thesis by (auto simp: zero_spacing_def)
  qed
  then have "\<forall>q\<in>set (jobQueue s3). 1 \<le> priority q" by fastforce
  with z3 have "zero_spacing (step s3 (RunAI ''C'' (Some 1)))
      ([(''A'', 1), (''B'', 5)] @ [(''C'', 1)])"
    by (intro zero_spacing_runAI) simp_all
  then show ?thesis
    unfolding run using e3 by (intro zero_spacing_quiet) simp_all
qed

text \<open>
  C7, as the specification states it, fails: with an invoker that always succeeds,
  submitting A (priority 1), B (priority 5), C (priority 1) in that order does not
  dispatch in the order B, A, C, neither with \<open>MIN_DELAY = 0\<close> nor with the code's 21000.
  The call \<^verbatim>\<open>runAI\<close> for A finds the scheduler idle and calls A's \<open>fn\<close> before B is
  submitted.
\<close>

theorem scenario_ABC_not_BAC:
  "map fn (dispatched (trace (run ((init 1700000000000)\<lparr>MIN_DELAY := 0\<rparr>)
     [RunAI ''A'' (Some 1), RunAI ''B'' (Some 5), RunAI ''C'' (Some 1),
      Settle 0 (Inr ''a''), Settle 0 (Inr ''b''), Settle 0 (Inr ''c'')])))
     \<noteq> [''B'', ''A'', ''C'']
   \<and> map fn (dispatched (trace (run (init 1700000000000)
     [RunAI ''A'' (Some 1), RunAI ''B'' (Some 5), RunAI ''C'' (Some 1),
      Settle 0 (Inr ''a''), Tick 21000, Timeout 0, Settle 0 (Inr ''b''), Tick 21000, Timeout 0,
      Settle 0 (Inr ''c'')])))
     \<noteq> [''B'', ''A'', ''C'']"
  by (simp add: run_def sched_defs)

text \<open>
  C7, amended. With \<open>MIN_DELAY = 0\<close>, a clock that is not before \<open>lastCallTime\<close>, and the
  submissions A (priority 1), B (priority 5), C (priority 1) in that order, the dispatch
  order is A, B, C in every run: whatever else happens between and after the
  submissions (time passing, calls settling with a result or an error, display events),
  A has been dispatched, and the jobs dispatched so far followed by the queue are A, B,
  C; once the queue is empty the dispatch order is A, B, C. With the code's \<open>MIN_DELAY\<close>
  of 21000, the three submitted at once and each cooldown waited out, the order is the
  same.
\<close>

theorem scenario_ABC_order:
  "0 \<le> t0 \<Longrightarrow> submissions evs = [(''A'', Some 1), (''B'', Some 5), (''C'', Some 1)] \<Longrightarrow>
     map fn (dispatched (trace (run ((init t0)\<lparr>MIN_DELAY := 0\<rparr>) evs)))
       @ map fn (jobQueue (run ((init t0)\<lparr>MIN_DELAY := 0\<rparr>) evs)) = [''A'', ''B'', ''C'']
   \<and> dispatched (trace (run ((init t0)\<lparr>MIN_DELAY := 0\<rparr>) evs)) \<noteq> []
   \<and> (jobQueue (run ((init t0)\<lparr>MIN_DELAY := 0\<rparr>) evs) = [] \<longrightarrow>
        map fn (dispatched (trace (run ((init t0)\<lparr>MIN_DELAY := 0\<rparr>) evs)))
          = [''A'', ''B'', ''C''])
   \<and> (21000 \<le> t0 \<longrightarrow>
        map fn (dispatched (trace (run (init t0)
          [RunAI ''A'' (Some 1), RunAI ''B'' (Some 5), RunAI ''C'' (Some 1),
           Settle 0 (Inr a), Tick 21000, Timeout 0, Settle 0 (Inr b), Tick 21000, Timeout 0,
           Settle 0 (Inr c)])))
          = [''A'', ''B'', ''C''])"
proof -
  assume t0: "0 \<le> t0"
    and "submissions evs = [(''A'', Some 1), (''B'', Some 5), (''C'', Some 1)]"
  then have z: "zero_spacing (run ((init t0)\<lparr>MIN_DELAY := 0\<rparr>) evs)
           [(''A'', 1), (''B'', 5), (''C'', 1)]"
    by (rule zero_spacing_scenario)
  then have "map (fst \<circ> (\<lambda>j. (fn j, priority j)))
      (dispatched (trace (run ((init t0)\<lparr>MIN_DELAY := 0\<rparr>) evs))
        @ jobQueue (run ((init t0)\<lparr>MIN_DELAY := 0\<rparr>) evs))
      = map fst [(''A'', 1::int), (''B'', 5), (''C'', 1)]"
    unfolding zero_spacing_def map_map [symmetric] by simp
  then have order: "map fn (dispatched (trace (run ((init t0)\<lparr>MIN_DELAY := 0\<rparr>) evs)))
       @ map fn (jobQueue (run ((init t0)\<lparr>MIN_DELAY := 0\<rparr>) evs)) = [''A'', ''B'', ''C'']"
    by (simp add: comp_def)
  have started: "dispatched (trace (run ((init t0)\<lparr>MIN_DELAY := 0\<rparr>) evs)) \<noteq> []"
    using z by (rule zero_spacing_started) simp
  have fixed: "21000 \<le> t0 \<longrightarrow>
        map fn (dispatched (trace (run (init t0)
          [RunAI ''A'' (Some 1), RunAI ''B'' (Some 5), RunAI ''C'' (Some 1),
           Settle 0 (Inr a), Tick 21000, Timeout 0, Settle 0 (Inr b), Tick 21000, Timeout 0,
           Settle 0 (Inr c)])))
          = [''A'', ''B'', ''C'']"
    by (simp add: run_def sched_defs)
  have drained: "jobQueue (run ((init t0)\<lparr>MIN_DELAY := 0\<rparr>) evs) = [] \<longrightarrow>
        map fn (dispatched (trace (run ((init t0)\<lparr>MIN_DELAY := 0\<rparr>) evs)))
          = [''A'', ''B'', ''C'']"
  proof
    assume q: "jobQueue (run ((init t0)\<lparr>MIN_DELAY := 0\<rparr>) evs) = []"
    show "map fn (dispatched (trace (run ((init t0)\<lparr>MIN_DELAY := 0\<rparr>) evs)))
          = [''A'', ''B'', ''C'']"
      using order unfolding q by simp
  qed
  from order started drained fixed show ?thesis by blast
qed

theorem scenario_ABC_order_witness:
  "(0::int) \<le> 1700000000000 \<and> (21000::int) \<le> 1700000000000
   \<and> submissions [RunAI ''A'' (Some 1), Tick 2, RunAI ''B'' (Some 5), RunAI ''C'' (Some 1),
        Settle 0 (Inr ''a''), Tick 3, Settle 0 (Inl ''b failed''), Settle 0 (Inr ''c'')]
       = [(''A'', Some 1), (''B'', Some 5), (''C'', Some 1)]
   \<and> jobQueue (run ((init 1700000000000)\<lparr>MIN_DELAY := 0\<rparr>)
       [RunAI ''A'' (Some 1), Tick 2, RunAI ''B'' (Some 5), RunAI ''C'' (Some 1),
        Settle 0 (Inr ''a''), Tick 3, Settle 0 (Inl ''b failed''), Settle 0 (Inr ''c'')]) = []
   \<and> map fn (dispatched (trace (run ((init 1700000000000)\<lparr>MIN_DELAY := 0\<rparr>)
       [RunAI ''A'' (Some 1), Tick 2, RunAI ''B'' (Some 5), RunAI ''C'' (Some 1),
        Settle 0 (Inr ''a''), Tick 3, Settle 0 (Inl ''b failed''), Settle 0 (Inr ''c'')])))
       = [''A'', ''B'', ''C'']
   \<and> map fn (dispatched (trace (run (init 1700000000000)
       [RunAI ''A'' (Some 1), RunAI ''B'' (Some 5), RunAI ''C'' (Some 1),
        Settle 0 (Inr ''a''), Tick 21000, Timeout 0, Settle 0 (Inr ''b''), Tick 21000, Timeout 0,
        Settle 0 (Inr ''c'')])))
       = [''A'', ''B'', ''C'']"
proof -
  let ?evs = "[RunAI ''A'' (Some 1), Tick 2, RunAI ''B'' (Some 5), RunAI ''C'' (Some 1),
        Settle 0 (Inr ''a''), Tick 3, Settle 0 (Inl ''b failed''), Settle 0 (Inr ''c'')]"
  have t: "(0::int) \<le> 1700000000000" "(21000::int) \<le> 1700000000000" by simp_all
  have subs: "submissions ?evs = [(''A'', Some 1), (''B'', Some 5), (''C'', Some 1)]" by simp
  have q: "jobQueue (run ((init 1700000000000)\<lparr>MIN_DELAY := 0\<rparr>) ?evs) = []"
    by (simp add: run_def sched_defs)
  show ?thesis
    using scenario_ABC_order [OF t(1) subs, of "''a''" "''b''" "''c''"] t subs q by simp
qed

section \<open>Single flight and spacing\<close>

text \<open>
  C1 fails on the code. \<open>isRunning\<close> is set after \<^verbatim>\<open>await sleep(wait)\<close>, so a second call
  of \<^verbatim>\<open>processQueue\<close> during the cooldown passes the guard and sleeps too; when both
  timers have fired, two calls \<^verbatim>\<open>job.fn()\<close> are awaited at once. Here A succeeds at once,
  B and C are submitted 5 s and 6 s later, and both are dispatched at the end of the
  cooldown.
\<close>

theorem two_jobs_in_flight:
  "map fn (running (run (init 1700000000000)
     [RunAI ''A'' None, Settle 0 (Inr ''a''), Tick 5000, RunAI ''B'' None, Tick 1000,
      RunAI ''C'' None, Tick 15000, Timeout 0, Timeout 0])) = [''B'', ''C'']
   \<and> \<not> length (running (run (init 1700000000000)
     [RunAI ''A'' None, Settle 0 (Inr ''a''), Tick 5000, RunAI ''B'' None, Tick 1000,
      RunAI ''C'' None, Tick 15000, Timeout 0, Timeout 0])) \<le> 1"
  by (simp add: run_def sched_defs)

text \<open>
  C3 fails on the code, by the same defect. B and C run together; D is submitted while
  they run. B succeeds first and the activation that then sleeps for D is due 21 s after
  B's success; C succeeds 1.5 s later, and D is dispatched 19.5 s after that success.
\<close>

theorem spacing_broken:
  "\<not> spacing_ok 21000 None (trace (run (init 1700000000000)
     [RunAI ''A'' None, Settle 0 (Inr ''a''), Tick 5000, RunAI ''B'' None, Tick 1000,
      RunAI ''C'' None, Tick 15000, Timeout 0, Timeout 0, Tick 200, RunAI ''D'' None,
      Tick 300, Settle 0 (Inr ''b''), Tick 1500, Settle 0 (Inr ''c''), Tick 19500, Timeout 0]))
   \<and> drop 5 (trace (run (init 1700000000000)
     [RunAI ''A'' None, Settle 0 (Inr ''a''), Tick 5000, RunAI ''B'' None, Tick 1000,
      RunAI ''C'' None, Tick 15000, Timeout 0, Timeout 0, Tick 200, RunAI ''D'' None,
      Tick 300, Settle 0 (Inr ''b''), Tick 1500, Settle 0 (Inr ''c''), Tick 19500, Timeout 0]))
     = [Resolved \<lparr>fn = ''C'', promise = 2, priority = 1\<rparr> ''c'' 1700000023000,
        Dispatched \<lparr>fn = ''D'', promise = 3, priority = 1\<rparr> [] 1700000042500]"
  by (simp add: run_def sched_defs)

section \<open>Settlement\<close>

lemma ledger_inv_init: "ledger_inv (init t0)"
  by (simp add: ledger_inv_def init_def)

lemma ledger_inv_resume:
  "ledger_inv s \<or> ledger_inv (s\<lparr>sleeping := sl\<rparr>) \<Longrightarrow> ledger_inv (processQueue_resume s)"
  by (cases "jobQueue s")
    (auto simp: processQueue_resume_def Let_def ledger_inv_def simp del: mset_upt)

lemma ledger_inv_processQueue:
  "mset (map promise (jobQueue s)) + mset (map promise (running s))
       + mset (map fst (settlements (trace s))) = mset [0..<nextPromise s] \<Longrightarrow>
   isRunning s \<longrightarrow> running s \<noteq> [] \<Longrightarrow> ledger_inv (processQueue s)"
  by (cases "jobQueue s")
    (auto simp: processQueue_def processQueue_resume_def Let_def ledger_inv_def
      simp del: mset_upt)

lemma ledger_inv_settled:
  assumes "ledger_inv s" and "k < length (running s)"
  shows "ledger_inv (processQueue_settled (running s ! k) out
           (s\<lparr>running := remove_nth k (running s)\<rparr>))"
proof -
  have split: "mset (map promise (remove_nth k (running s))) + {#promise (running s ! k)#}
      = mset (map promise (running s))"
    by (rule mset_remove_nth [OF assms(2)])
  have "mset (map promise (jobQueue s)) + mset (map promise (remove_nth k (running s)))
      + (mset (map fst (settlements (trace s))) + {#promise (running s ! k)#})
      = mset (map promise (jobQueue s))
        + (mset (map promise (remove_nth k (running s))) + {#promise (running s ! k)#})
        + mset (map fst (settlements (trace s)))"
    by simp
  also have "\<dots> = mset [0..<nextPromise s]"
    unfolding split using assms(1) by (simp only: ledger_inv_def)
  finally have part: "mset (map promise (jobQueue s))
      + mset (map promise (remove_nth k (running s)))
      + (mset (map fst (settlements (trace s))) + {#promise (running s ! k)#})
      = mset [0..<nextPromise s]" .
  show ?thesis
  proof (cases "jobQueue s")
    case Nil
    with part show ?thesis
      by (cases out)
        (simp_all add: processQueue_settled_def Let_def ledger_inv_def del: mset_upt)
  next
    case (Cons j js)
    with part show ?thesis
      by (cases out)
        (simp_all add: processQueue_settled_def Let_def ledger_inv_processQueue del: mset_upt)
  qed
qed

lemma ledger_inv_runAI:
  assumes "ledger_inv s"
  shows "ledger_inv (runAI f p s)"
proof -
  define job where "job = \<lparr> fn = f, promise = nextPromise s,
      priority = (case p of None \<Rightarrow> 1 | Some p \<Rightarrow> p) \<rparr>"
  define s2 where "s2 = s\<lparr>nextPromise := Suc (nextPromise s),
      jobQueue := sort_key (\<lambda>j. - priority j) (jobQueue s @ [job])\<rparr>"
  have "mset (map promise (jobQueue s2)) + mset (map promise (running s2))
      + mset (map fst (settlements (trace s2)))
      = (mset (map promise (jobQueue s)) + mset (map promise (running s))
          + mset (map fst (settlements (trace s)))) + {#nextPromise s#}"
    by (simp add: s2_def job_def)
  also have "\<dots> = mset [0..<nextPromise s2]"
    using assms by (simp add: ledger_inv_def s2_def del: mset_upt)
  finally have "ledger_inv (processQueue s2)"
    using assms by (intro ledger_inv_processQueue) (simp_all add: ledger_inv_def s2_def)
  then show ?thesis
    by (simp add: runAI_def Let_def job_def s2_def)
qed

lemma ledger_inv_step: "ledger_inv s \<Longrightarrow> ledger_inv (step s e)"
proof (cases e)
  case (Timeout k)
  assume "ledger_inv s"
  then show ?thesis
    by (simp add: Timeout step_def ledger_inv_resume [of _ "sleeping s"])
next
  case (Settle k out)
  assume "ledger_inv s"
  then show ?thesis
    by (simp add: Settle step_def ledger_inv_settled)
qed (simp_all add: step_def ledger_inv_runAI,
    simp_all add: ledger_inv_def initScheduler_def del: mset_upt)

lemma ledger_inv_run: "ledger_inv (run (init t0) evs)"
  by (induction evs rule: rev_induct)
    (simp_all add: run_snoc ledger_inv_step, simp add: run_def ledger_inv_init)

lemma settlements_processQueue [simp]:
  "settlements (trace (processQueue s)) = settlements (trace s)"
  by (cases "jobQueue s") (simp_all add: processQueue_def processQueue_resume_def Let_def)

lemma settlements_resume [simp]:
  "settlements (trace (processQueue_resume s)) = settlements (trace s)"
  by (cases "jobQueue s") (simp_all add: processQueue_resume_def Let_def)

lemma settlements_settle:
  "k < length (running s) \<Longrightarrow>
   settlements (trace (step s (Settle k out)))
     = settlements (trace s) @ [(promise (running s ! k), out)]"
  by (cases out) (simp_all add: step_def processQueue_settled_def Let_def)

lemma settlements_other:
  "\<not> (\<exists>k out. e = Settle k out \<and> k < length (running s)) \<Longrightarrow>
   settlements (trace (step s e)) = settlements (trace s)"
  by (cases e) (simp_all add: step_def runAI_def Let_def initScheduler_def)

lemma rejection_reenters:
  "k < length (running s) \<Longrightarrow> jobQueue s \<noteq> [] \<Longrightarrow>
   (jobQueue (step s (Settle k (Inl err))) = jobQueue s
      \<and> sleeping (step s (Settle k (Inl err))) = sleeping s @ [lastCallTime s + MIN_DELAY s])
   \<or> (jobQueue (step s (Settle k (Inl err))) = tl (jobQueue s)
      \<and> running (step s (Settle k (Inl err))) = remove_nth k (running s) @ [hd (jobQueue s)])"
  by (cases "jobQueue s")
    (simp_all add: step_def processQueue_settled_def processQueue_def processQueue_resume_def Let_def)

lemma backlog_timeout:
  "k < length (sleeping s) \<Longrightarrow> sleeping s ! k \<le> now s \<Longrightarrow>
   backlog (step s (Timeout k)) < backlog s"
  using length_remove_nth [of k "sleeping s"]
  by (cases "jobQueue s") (simp_all add: step_def processQueue_resume_def Let_def backlog_def)

lemma backlog_settle:
  "k < length (running s) \<Longrightarrow> backlog (step s (Settle k out)) < backlog s"
  using length_remove_nth [of k "running s"]
  by (cases "jobQueue s"; cases out)
    (simp_all add: step_def processQueue_settled_def processQueue_def processQueue_resume_def
      Let_def backlog_def)

text \<open>
  C5. In every state the scheduler reaches, each promise created by \<^verbatim>\<open>runAI\<close> belongs to
  exactly one of: a queued job, a running job, a settlement; so no promise is settled
  twice and no job is lost. A non-empty queue always has an activation of
  \<^verbatim>\<open>processQueue\<close> pending (sleeping or awaiting a call), and when none is pending every
  promise has been settled. The step in which a call \<^verbatim>\<open>job.fn()\<close> settles appends
  exactly one settlement, of that job's promise, with the outcome of the call (the
  result, or the error as it is); no other step settles anything. After a rejection,
  if jobs are queued, \<^verbatim>\<open>processQueue\<close> has been re-entered: it sleeps until the cooldown
  ends, or it has dispatched the head of the queue. Every settlement and every timer
  that fires reduces the work ahead (\<open>backlog\<close>), so without new submissions the queue
  drains.
\<close>

theorem settlement_exactly_once:
  "s = run (init t0) evs \<Longrightarrow>
     mset (map promise (jobQueue s) @ map promise (running s) @ map fst (settlements (trace s)))
       = mset [0..<nextPromise s]
   \<and> distinct (map fst (settlements (trace s)))
   \<and> (jobQueue s \<noteq> [] \<longrightarrow> sleeping s \<noteq> [] \<or> running s \<noteq> [])
   \<and> (running s = [] \<and> sleeping s = [] \<longrightarrow>
        jobQueue s = [] \<and> mset (map fst (settlements (trace s))) = mset [0..<nextPromise s])
   \<and> (\<forall>k out. k < length (running s) \<longrightarrow>
        settlements (trace (step s (Settle k out)))
          = settlements (trace s) @ [(promise (running s ! k), out)]
        \<and> backlog (step s (Settle k out)) < backlog s)
   \<and> (\<forall>e. \<not> (\<exists>k out. e = Settle k out \<and> k < length (running s)) \<longrightarrow>
        settlements (trace (step s e)) = settlements (trace s))
   \<and> (\<forall>k err. k < length (running s) \<and> jobQueue s \<noteq> [] \<longrightarrow>
        (jobQueue (step s (Settle k (Inl err))) = jobQueue s
           \<and> sleeping (step s (Settle k (Inl err)))
               = sleeping s @ [lastCallTime s + MIN_DELAY s])
        \<or> (jobQueue (step s (Settle k (Inl err))) = tl (jobQueue s)
           \<and> running (step s (Settle k (Inl err)))
               = remove_nth k (running s) @ [hd (jobQueue s)]))
   \<and> (\<forall>k. k < length (sleeping s) \<and> sleeping s ! k \<le> now s \<longrightarrow>
        backlog (step s (Timeout k)) < backlog s)"
proof -
  assume "s = run (init t0) evs"
  then have inv: "ledger_inv s" by (simp add: ledger_inv_run)
  then have part: "mset (map promise (jobQueue s) @ map promise (running s)
      @ map fst (settlements (trace s))) = mset [0..<nextPromise s]"
    by (simp add: ledger_inv_def ac_simps del: mset_upt)
  have "distinct (map promise (jobQueue s) @ map promise (running s)
      @ map fst (settlements (trace s)))"
    using mset_eq_imp_distinct_iff [OF part] by simp
  then have dist: "distinct (map fst (settlements (trace s)))" by simp
  have live: "jobQueue s \<noteq> [] \<longrightarrow> sleeping s \<noteq> [] \<or> running s \<noteq> []"
    using inv by (simp add: ledger_inv_def)
  have quiet: "running s = [] \<and> sleeping s = [] \<longrightarrow>
      jobQueue s = [] \<and> mset (map fst (settlements (trace s))) = mset [0..<nextPromise s]"
    using live part by (auto simp del: mset_upt)
  show ?thesis
    using part dist live quiet
    by (intro conjI allI impI)
      (simp_all add: settlements_settle settlements_other backlog_settle backlog_timeout
        rejection_reenters del: mset_upt)
qed

theorem settlement_exactly_once_witness:
  "settlements (trace (step (run (init 1700000000000) [RunAI ''A'' None, RunAI ''B'' (Some 2)])
      (Settle 0 (Inl ''boom'')))) = [(0, Inl ''boom'')]
   \<and> running (step (run (init 1700000000000) [RunAI ''A'' None, RunAI ''B'' (Some 2)])
      (Settle 0 (Inl ''boom''))) = [\<lparr>fn = ''B'', promise = 1, priority = 2\<rparr>]
   \<and> settlements (trace (run (init 1700000000000)
        [RunAI ''A'' None, RunAI ''B'' (Some 2), Settle 0 (Inl ''boom''), Settle 0 (Inr ''ok'')]))
      = [(0, Inl ''boom''), (1, Inr ''ok'')]
   \<and> nextPromise (run (init 1700000000000)
        [RunAI ''A'' None, RunAI ''B'' (Some 2), Settle 0 (Inl ''boom''), Settle 0 (Inr ''ok'')]) = 2
   \<and> backlog (step (run (init 1700000000000)
        [RunAI ''A'' None, Settle 0 (Inr ''a''), RunAI ''B'' None, Tick 21000]) (Timeout 0))
      < backlog (run (init 1700000000000)
        [RunAI ''A'' None, Settle 0 (Inr ''a''), RunAI ''B'' None, Tick 21000])"
proof -
  let ?a = "run (init 1700000000000) [RunAI ''A'' None, RunAI ''B'' (Some 2)]"
  let ?b = "run (init 1700000000000)
        [RunAI ''A'' None, RunAI ''B'' (Some 2), Settle 0 (Inl ''boom''), Settle 0 (Inr ''ok'')]"
  let ?c = "run (init 1700000000000)
        [RunAI ''A'' None, Settle 0 (Inr ''a''), RunAI ''B'' None, Tick 21000]"
  have a: "running ?a = [\<lparr>fn = ''A'', promise = 0, priority = 1\<rparr>]"
    "jobQueue ?a = [\<lparr>fn = ''B'', promise = 1, priority = 2\<rparr>]" "trace ?a
      = [Dispatched \<lparr>fn = ''A'', promise = 0, priority = 1\<rparr> [] 1700000000000]"
    "lastCallTime ?a = 0" "now ?a = 1700000000000" "MIN_DELAY ?a = 21000" "sleeping ?a = []"
    by (simp_all add: run_def sched_defs)
  have b: "running ?b = []" "sleeping ?b = []" "nextPromise ?b = 2"
    "settlements (trace ?b) = [(0, Inl ''boom''), (1, Inr ''ok'')]"
    by (simp_all add: run_def sched_defs)
  have c: "sleeping ?c = [1700000021000]" "now ?c = 1700000021000"
    by (simp_all add: run_def sched_defs)
  have "settlements (trace (step ?a (Settle 0 (Inl ''boom'')))) = [(0, Inl ''boom'')]"
    using settlement_exactly_once [OF refl, of 1700000000000
        "[RunAI ''A'' None, RunAI ''B'' (Some 2)]"] a
    by simp
  moreover have "running (step ?a (Settle 0 (Inl ''boom'')))
      = [\<lparr>fn = ''B'', promise = 1, priority = 2\<rparr>]"
    by (simp add: run_def sched_defs)
  moreover have "backlog (step ?c (Timeout 0)) < backlog ?c"
    using settlement_exactly_once [OF refl, of 1700000000000
        "[RunAI ''A'' None, Settle 0 (Inr ''a''), RunAI ''B'' None, Tick 21000]"] c
    by simp
  ultimately show ?thesis using b by simp
qed

section \<open>The cooldown display\<close>

lemma core_stopCooldown [simp]: "core (stopCooldown s) = core s"
  by (simp add: core_def stopCooldown_def split: option.splits)

lemma core_startCooldown [simp]: "core (startCooldown ms s) = core s"
  by (simp add: core_def startCooldown_def Let_def split: option.splits)

lemma stopCooldown_core [simp]: "stopCooldown (core s) = core s"
  by (simp add: core_def stopCooldown_def)

lemma startCooldown_core [simp]: "startCooldown ms (core s) = core s"
  by (simp add: core_def startCooldown_def)

lemma core_fields [simp]:
  "jobQueue (core s) = jobQueue s" "isRunning (core s) = isRunning s"
  "lastCallTime (core s) = lastCallTime s" "MIN_DELAY (core s) = MIN_DELAY s"
  "now (core s) = now s" "sleeping (core s) = sleeping s" "running (core s) = running s"
  "nextPromise (core s) = nextPromise s" "trace (core s) = trace s"
  by (simp_all add: core_def)

lemma core_update [simp]:
  "core (s\<lparr>jobQueue := q\<rparr>) = (core s)\<lparr>jobQueue := q\<rparr>"
  "core (s\<lparr>isRunning := b\<rparr>) = (core s)\<lparr>isRunning := b\<rparr>"
  "core (s\<lparr>lastCallTime := t\<rparr>) = (core s)\<lparr>lastCallTime := t\<rparr>"
  "core (s\<lparr>now := t\<rparr>) = (core s)\<lparr>now := t\<rparr>"
  "core (s\<lparr>sleeping := sl\<rparr>) = (core s)\<lparr>sleeping := sl\<rparr>"
  "core (s\<lparr>running := r\<rparr>) = (core s)\<lparr>running := r\<rparr>"
  "core (s\<lparr>nextPromise := n\<rparr>) = (core s)\<lparr>nextPromise := n\<rparr>"
  "core (s\<lparr>trace := tr\<rparr>) = (core s)\<lparr>trace := tr\<rparr>"
  "core (s\<lparr>statusBarItem := i\<rparr>) = core s"
  "core (s\<lparr>cooldownInterval := c\<rparr>) = core s"
  "core (s\<lparr>intervals := is\<rparr>) = core s"
  "core (s\<lparr>nextInterval := ni\<rparr>) = core s"
  by (simp_all add: core_def)

lemma core_init [simp]: "core (init t0) = init t0"
  by (simp add: core_def init_def)

lemma core_processQueue_resume [simp]:
  "core (processQueue_resume s) = processQueue_resume (core s)"
  by (cases "jobQueue s") (simp_all add: processQueue_resume_def Let_def)

lemma core_processQueue [simp]: "core (processQueue s) = processQueue (core s)"
  by (simp add: processQueue_def Let_def)

lemma core_processQueue_settled [simp]:
  "core (processQueue_settled j out s) = processQueue_settled j out (core s)"
  by (cases out) (simp_all add: processQueue_settled_def Let_def)

lemma core_runAI [simp]: "core (runAI f p s) = runAI f p (core s)"
  by (simp add: runAI_def Let_def)

lemma core_intervalCallback [simp]: "core (intervalCallback k s) = core s"
  by (simp add: intervalCallback_def Let_def split: prod.splits option.splits)

lemma core_step: "\<not> is_display_event e \<Longrightarrow> core (step s e) = step (core s) e"
  by (cases e) (simp_all add: step_def)

lemma core_step_display: "is_display_event e \<Longrightarrow> core (step s e) = core s"
  by (cases e) (simp_all add: step_def initScheduler_def)

lemma core_run: "core (run s evs) = run (core s) (filter (\<lambda>e. \<not> is_display_event e) evs)"
proof (induction evs arbitrary: s)
  case Nil
  show ?case by (simp add: run_def)
next
  case (Cons e evs)
  have "core (run s (e # evs)) = core (run (step s e) evs)" by (simp add: run_def)
  also have "\<dots> = run (core (step s e)) (filter (\<lambda>e. \<not> is_display_event e) evs)"
    by (rule Cons.IH)
  also have "\<dots> = run (core s) (filter (\<lambda>e. \<not> is_display_event e) (e # evs))"
    by (cases "is_display_event e") (simp_all add: core_step core_step_display run_def)
  finally show ?case .
qed

text \<open>
  C10. The scheduling is the same with or without the cooldown display. Two sequences of
  events that differ only in display events (calls of \<^verbatim>\<open>initScheduler\<close>, callbacks of the
  countdown interval) lead to states that agree on everything but the display: queue,
  \<open>isRunning\<close>, \<open>lastCallTime\<close>, clock, pending activations, and the trace with the order
  and the times of the dispatches and every settled result. In particular a run that
  starts with \<^verbatim>\<open>initScheduler\<close> agrees with the run without it. \<^verbatim>\<open>initScheduler\<close>,
  \<^verbatim>\<open>startCooldown\<close>, \<^verbatim>\<open>stopCooldown\<close> and the interval's callback change no field but
  those of the display. (Assigning \<^verbatim>\<open>statusBarItem.text\<close> is taken to have no other effect.)
\<close>

theorem display_noninterference:
  "(filter (\<lambda>e. \<not> is_display_event e) evs = filter (\<lambda>e. \<not> is_display_event e) evs' \<longrightarrow>
      core (run (init t0) evs) = core (run (init t0) evs'))
   \<and> core (run (init t0) (InitScheduler statusItem # evs)) = core (run (init t0) evs)
   \<and> core (run (init t0) evs) = run (init t0) (filter (\<lambda>e. \<not> is_display_event e) evs)
   \<and> core (initScheduler statusItem s) = core s
   \<and> core (startCooldown ms s) = core s
   \<and> core (stopCooldown s) = core s
   \<and> core (intervalCallback k s) = core s
   \<and> jobQueue (core s) = jobQueue s \<and> isRunning (core s) = isRunning s
   \<and> lastCallTime (core s) = lastCallTime s \<and> trace (core s) = trace s
   \<and> now (core s) = now s \<and> sleeping (core s) = sleeping s \<and> running (core s) = running s"
  by (simp add: core_run initScheduler_def)

theorem display_noninterference_witness:
  "filter (\<lambda>e. \<not> is_display_event e)
     [InitScheduler (Some Initial), RunAI ''A'' None, Settle 0 (Inr ''a''), Tick 500, RunAI ''B'' (Some 3),
      Tick 1000, Interval 0, Tick 19500, Timeout 0]
   = filter (\<lambda>e. \<not> is_display_event e)
     [RunAI ''A'' None, Settle 0 (Inr ''a''), Tick 500, RunAI ''B'' (Some 3),
      Tick 1000, Tick 19500, Timeout 0]
   \<and> core (run (init 1700000000000)
     [InitScheduler (Some Initial), RunAI ''A'' None, Settle 0 (Inr ''a''), Tick 500, RunAI ''B'' (Some 3),
      Tick 1000, Interval 0, Tick 19500, Timeout 0])
   = core (run (init 1700000000000)
     [RunAI ''A'' None, Settle 0 (Inr ''a''), Tick 500, RunAI ''B'' (Some 3),
      Tick 1000, Tick 19500, Timeout 0])
   \<and> statusBarItem (run (init 1700000000000)
     [InitScheduler (Some Initial), RunAI ''A'' None, Settle 0 (Inr ''a''), Tick 500, RunAI ''B'' (Some 3),
      Tick 1000, Interval 0]) = Some (Cooldown 20)
   \<and> statusBarItem (run (init 1700000000000)
     [RunAI ''A'' None, Settle 0 (Inr ''a''), Tick 500, RunAI ''B'' (Some 3),
      Tick 1000]) = None"
  using display_noninterference [of
      "[InitScheduler (Some Initial), RunAI ''A'' None, Settle 0 (Inr ''a''), Tick 500,
        RunAI ''B'' (Some 3), Tick 1000, Interval 0, Tick 19500, Timeout 0]"
      "[RunAI ''A'' None, Settle 0 (Inr ''a''), Tick 500, RunAI ''B'' (Some 3),
        Tick 1000, Tick 19500, Timeout 0]" 1700000000000]
  by (simp add: run_def sched_defs)

section \<open>Leaving the queue\<close>

text \<open>The module has no operation that takes a job out of the queue other than the
  \<^verbatim>\<open>jobQueue.shift()\<close> of \<^verbatim>\<open>processQueue\<close>, which is followed by the call of its
  \<open>fn\<close>.\<close>

lemma dispatch_inv_resume: "dispatch_inv s \<Longrightarrow> dispatch_inv (processQueue_resume s)"
  by (cases "jobQueue s")
    (simp_all add: processQueue_resume_def Let_def dispatch_inv_def del: mset_upt)

lemma dispatch_inv_processQueue: "dispatch_inv s \<Longrightarrow> dispatch_inv (processQueue s)"
  by (cases "jobQueue s")
    (simp_all add: processQueue_def processQueue_resume_def Let_def dispatch_inv_def
      del: mset_upt)

lemma dispatch_inv_step: "dispatch_inv s \<Longrightarrow> dispatch_inv (step s e)"
proof (cases e)
  case (RunAI f p)
  assume "dispatch_inv s"
  then have "dispatch_inv (s\<lparr>nextPromise := Suc (nextPromise s),
      jobQueue := sort_key (\<lambda>j. - priority j) (jobQueue s @
        [\<lparr> fn = f, promise = nextPromise s,
           priority = (case p of None \<Rightarrow> 1 | Some p \<Rightarrow> p) \<rparr>])\<rparr>)"
    by (simp add: dispatch_inv_def del: mset_upt)
  then have "dispatch_inv (processQueue (s\<lparr>nextPromise := Suc (nextPromise s),
      jobQueue := sort_key (\<lambda>j. - priority j) (jobQueue s @
        [\<lparr> fn = f, promise = nextPromise s,
           priority = (case p of None \<Rightarrow> 1 | Some p \<Rightarrow> p) \<rparr>])\<rparr>))"
    by (rule dispatch_inv_processQueue)
  then show ?thesis by (simp add: RunAI step_def runAI_def Let_def)
next
  case (Timeout k)
  assume "dispatch_inv s"
  then have "dispatch_inv (s\<lparr>sleeping := remove_nth k (sleeping s)\<rparr>)"
    by (simp add: dispatch_inv_def del: mset_upt)
  with \<open>dispatch_inv s\<close> show ?thesis
    by (simp add: Timeout step_def dispatch_inv_resume)
next
  case (Settle k out)
  assume inv: "dispatch_inv s"
  have "dispatch_inv (processQueue_settled j out s')" if "dispatch_inv s'" for j s'
  proof (cases out)
    case (Inl err)
    have "dispatch_inv (s'\<lparr>trace := trace s' @ [Rejected j err (now s')], isRunning := False\<rparr>)"
      using that by (simp add: dispatch_inv_def del: mset_upt)
    then show ?thesis
      by (simp add: Inl processQueue_settled_def Let_def dispatch_inv_processQueue)
  next
    case (Inr res)
    have "dispatch_inv (s'\<lparr>lastCallTime := now s',
        trace := trace s' @ [Resolved j res (now s')], isRunning := False\<rparr>)"
      using that by (simp add: dispatch_inv_def del: mset_upt)
    then show ?thesis
      by (simp add: Inr processQueue_settled_def Let_def dispatch_inv_processQueue)
  qed
  moreover have "dispatch_inv (s\<lparr>running := remove_nth k (running s)\<rparr>)"
    using inv by (simp add: dispatch_inv_def del: mset_upt)
  ultimately show ?thesis using inv by (simp add: Settle step_def)
qed (simp_all add: step_def initScheduler_def dispatch_inv_def del: mset_upt)

lemma dispatch_inv_run: "dispatch_inv (run (init t0) evs)"
  by (induction evs rule: rev_induct)
    (simp_all add: run_snoc dispatch_inv_step, simp add: run_def dispatch_inv_def init_def)

end
